theory Spec2Isabelle
  imports Complex_Main "HOL-Library.AList"
begin

section \<open>Numbers\<close>

text \<open>
  The scene SDK computes with JavaScript numbers. They are modelled as exact reals:
  infinities and NaN are outside the model, and so is rounding, with one exception. Where
  \<open>Math.floor\<close> turns a product into a count of array elements, the rounding of each
  operation decides the count, and the operations are rounded by \<open>fl64\<close>. The remainder
  operator \<open>%\<close> truncates the quotient towards zero, so the result has the sign of the
  dividend.
\<close>

definition js_trunc :: "real \<Rightarrow> int" where
  "js_trunc x = (if 0 \<le> x then \<lfloor>x\<rfloor> else \<lceil>x\<rceil>)"

definition js_rem :: "real \<Rightarrow> real \<Rightarrow> real" where
  "js_rem a b = a - b * of_int (js_trunc (a / b))"

text \<open>
  \<open>fl64 x\<close> is the binary64 number nearest to \<open>x\<close>, a tie going to the even significand:
  \<open>binade x\<close> is the exponent \<open>e\<close> with \<open>2 ^ e \<le> x < 2 ^ (e + 1)\<close>, the spacing of the
  numbers there is \<open>2 ^ (e - 52)\<close>, and below \<open>2 ^ - 1022\<close> the spacing stays
  \<open>2 ^ - 1074\<close>. Overflow to infinity is not modelled.
\<close>

fun ilog2 :: "nat \<Rightarrow> nat" where
  "ilog2 n = (if n < 2 then 0 else Suc (ilog2 (n div 2)))"

declare ilog2.simps [simp del]

definition pow2 :: "int \<Rightarrow> real" where
  "pow2 e = (if 0 \<le> e then 2 ^ nat e else 1 / 2 ^ nat (- e))"

definition binade :: "real \<Rightarrow> int" where
  "binade x =
     (if 1 \<le> x then int (ilog2 (nat \<lfloor>x\<rfloor>))
      else (let n = nat \<lceil>1 / x\<rceil> in - int (if n \<le> 1 then 0 else Suc (ilog2 (n - 1)))))"

definition roundEven :: "real \<Rightarrow> int" where
  "roundEven x =
     (let f = \<lfloor>x\<rfloor>; d = x - of_int f
      in if d < 1 / 2 then f else if 1 / 2 < d then f + 1 else if even f then f else f + 1)"

definition fl64 :: "real \<Rightarrow> real" where
  "fl64 x =
     (if x = 0 then 0
      else let e = max (binade \<bar>x\<bar>) (- 1022);
               u = pow2 (e - 52)
           in of_int (roundEven (x / u)) * u)"

section \<open>Tween evaluator (scene/tweens)\<close>

subsection \<open>Easing table\<close>

definition bounceOut :: "real \<Rightarrow> real" where
  "bounceOut t =
     (let n1 = 7.5625; d1 = 2.75 in
      if t < 1 / d1 then n1 * t * t
      else if t < 2 / d1 then (let t1 = t - 1.5 / d1 in n1 * t1 * t1 + 0.75)
      else if t < 2.5 / d1 then (let t2 = t - 2.25 / d1 in n1 * t2 * t2 + 0.9375)
      else (let t3 = t - 2.625 / d1 in n1 * t3 * t3 + 0.984375))"

definition ease_linear :: "real \<Rightarrow> real" where
  "ease_linear t = t"

definition ease_in :: "real \<Rightarrow> real" where
  "ease_in t = t * t * t"

definition ease_out :: "real \<Rightarrow> real" where
  "ease_out t = 1 - (1 - t) ^ 3"

definition ease_in_out :: "real \<Rightarrow> real" where
  "ease_in_out t = (if t < 0.5 then 4 * t * t * t else 1 - (- 2 * t + 2) ^ 3 / 2)"

definition ease_in_quad :: "real \<Rightarrow> real" where
  "ease_in_quad t = t * t"

definition ease_out_quad :: "real \<Rightarrow> real" where
  "ease_out_quad t = 1 - (1 - t) * (1 - t)"

definition ease_in_out_quad :: "real \<Rightarrow> real" where
  "ease_in_out_quad t = (if t < 0.5 then 2 * t * t else 1 - (- 2 * t + 2) ^ 2 / 2)"

definition ease_in_elastic :: "real \<Rightarrow> real" where
  "ease_in_elastic t =
     (if t = 0 \<or> t = 1 then t
      else - (2 powr (10 * t - 10)) * sin ((t * 10 - 10.75) * (2 * pi / 3)))"

definition ease_out_elastic :: "real \<Rightarrow> real" where
  "ease_out_elastic t =
     (if t = 0 \<or> t = 1 then t
      else 2 powr (- 10 * t) * sin ((t * 10 - 0.75) * (2 * pi / 3)) + 1)"

definition ease_in_bounce :: "real \<Rightarrow> real" where
  "ease_in_bounce t = 1 - bounceOut (1 - t)"

text \<open>
  \<open>easingTable\<close> is the record of named curves, with its own keys in the order of the source.
\<close>

definition easingTable :: "(string \<times> (real \<Rightarrow> real)) list" where
  "easingTable =
     [(''linear'', ease_linear),
      (''ease-in'', ease_in),
      (''ease-out'', ease_out),
      (''ease-in-out'', ease_in_out),
      (''ease-in-quad'', ease_in_quad),
      (''ease-out-quad'', ease_out_quad),
      (''ease-in-out-quad'', ease_in_out_quad),
      (''ease-in-cubic'', ease_in),
      (''ease-out-cubic'', ease_out),
      (''ease-in-out-cubic'', ease_in_out),
      (''ease-in-elastic'', ease_in_elastic),
      (''ease-out-elastic'', ease_out_elastic),
      (''ease-in-bounce'', ease_in_bounce),
      (''ease-out-bounce'', bounceOut)]"

text \<open>
  The record is a plain object, so a name that is not one of its own keys is looked up on
  \<open>Object.prototype\<close>. The module is in strict mode and \<open>interpolateTween\<close> calls what it
  found as a plain function, with \<open>this\<close> undefined, and uses the result as a factor.
  \<open>applied\<close> is the outcome of such a call: the numeric value of what the call returned, a value
  that is not numeric (the factor is then NaN), or a \<open>TypeError\<close>. \<open>objectPrototype\<close> lists
  the members of \<open>Object.prototype\<close> with their outcome at a numeric argument:
  \<open>constructor\<close> wraps the argument in a Number object, whose numeric value is the argument;
  \<open>isPrototypeOf\<close> returns \<open>false\<close>, whose numeric value is 0; \<open>toString\<close> returns the
  string \<open>[object Undefined]\<close>; \<open>__proto__\<close> is an object and cannot be called; every other
  member first converts \<open>this\<close> to an object and raises.
\<close>

datatype applied = Value real | NotNumeric | Throws

definition objectPrototype :: "(string \<times> (real \<Rightarrow> applied)) list" where
  "objectPrototype =
     [(''constructor'', \<lambda>t. Value t),
      (''__defineGetter__'', \<lambda>t. Throws),
      (''__defineSetter__'', \<lambda>t. Throws),
      (''hasOwnProperty'', \<lambda>t. Throws),
      (''__lookupGetter__'', \<lambda>t. Throws),
      (''__lookupSetter__'', \<lambda>t. Throws),
      (''isPrototypeOf'', \<lambda>t. Value 0),
      (''propertyIsEnumerable'', \<lambda>t. Throws),
      (''toString'', \<lambda>t. NotNumeric),
      (''valueOf'', \<lambda>t. Throws),
      (''__proto__'', \<lambda>t. Throws),
      (''toLocaleString'', \<lambda>t. Throws)]"

definition curve :: "(real \<Rightarrow> real) \<Rightarrow> real \<Rightarrow> applied" where
  "curve f t = Value (f t)"

text \<open>
  \<open>easingFunctions name\<close> is the value of \<open>easingFunctions[name]\<close>: \<open>None\<close> stands for
  \<open>undefined\<close>, the result for a name that is neither an own key nor a member of
  \<open>Object.prototype\<close>.
\<close>

definition easingFunctions :: "string \<rightharpoonup> (real \<Rightarrow> applied)" where
  "easingFunctions name =
     (case map_of easingTable name of
        Some f \<Rightarrow> Some (curve f)
      | None \<Rightarrow> map_of objectPrototype name)"

subsection \<open>Tween descriptor and interpolation\<close>

text \<open>
  The argument type of \<open>interpolateTween\<close>: \<open>from\<close>, \<open>to\<close> and \<open>duration\<close> are
  mandatory, the other fields optional (\<open>None\<close> stands for an absent field).
\<close>

record tween =
  tw_from :: real
  tw_to :: real
  tw_duration :: real
  tw_easing :: "string option"
  tw_delay :: "real option"
  tw_repeat :: "real option"
  tw_yoyo :: "bool option"
  tw_startedAt :: "real option"

definition orElse :: "'a option \<Rightarrow> 'a \<Rightarrow> 'a" where
  "orElse v d = (case v of None \<Rightarrow> d | Some x \<Rightarrow> x)"

definition clamp01 :: "real \<Rightarrow> real" where
  "clamp01 p = max 0 (min 1 p)"

text \<open>
  The result of \<open>interpolateTween\<close>: a \<open>TypeError\<close> raised by the call of the easing
  function, or the value returned, which is \<open>null\<close> (\<open>None\<close>), a number or NaN.
\<close>

datatype failure = TypeError

datatype jsnumber = Number real | NaN

definition interpolateTween :: "tween \<Rightarrow> real \<Rightarrow> failure + jsnumber option" where
  "interpolateTween tween now =
     (case tw_startedAt tween of
        None \<Rightarrow> Inr None
      | Some started \<Rightarrow>
          let delay = orElse (tw_delay tween) 0;
              elapsed = now - started - delay
          in if elapsed < 0 then Inr (Some (Number (tw_from tween)))
             else
               let repeat = orElse (tw_repeat tween) 0;
                   duration = tw_duration tween
               in if duration \<le> 0 then Inr (Some (Number (tw_to tween)))
                  else
                    let iteration = \<lfloor>elapsed / duration\<rfloor>;
                        progress = js_rem elapsed duration / duration
                    in if 0 \<le> repeat \<and> repeat < of_int iteration
                       then (if tw_yoyo tween = Some True \<and> js_rem repeat 2 = 0
                             then Inr (Some (Number (tw_from tween)))
                             else Inr (Some (Number (tw_to tween))))
                       else
                         let progress1 =
                               (if tw_yoyo tween = Some True \<and> js_rem (of_int iteration) 2 = 1
                                then 1 - progress else progress);
                             easingName = orElse (tw_easing tween) ''ease-in-out'';
                             easeFn = orElse (easingFunctions easingName) (curve ease_linear)
                         in case easeFn (clamp01 progress1) of
                              Value t \<Rightarrow>
                                Inr (Some (Number (tw_from tween + (tw_to tween - tw_from tween) * t)))
                            | NotNumeric \<Rightarrow> Inr (Some NaN)
                            | Throws \<Rightarrow> Inl TypeError)"
section \<open>Scene document\<close>

subsection \<open>JSON values and objects\<close>

text \<open>
  Free-form values (\<open>data\<close>, \<open>style\<close>, variant properties) are JSON values. An object
  is an association list in insertion order; an absent key reads as \<open>undefined\<close>,
  here \<open>None\<close>. The objects of the model have their own properties only: a key that names
  a member of \<open>Object.prototype\<close> (\<open>constructor\<close>, \<open>toString\<close>, \<open>__proto__\<close> and the
  like), which the program reads through the prototype chain, is outside the model. This
  holds for the field names of \<open>data\<close> and for the node ids that key the cooldown records;
  the easing table, whose keys are names given by the caller, is modelled with the inherited
  members.
\<close>

datatype json =
    JNull
  | JBool bool
  | JNum real
  | JStr string
  | JArr "json list"
  | JObj "(string \<times> json) list"

type_synonym jobj = "(string \<times> json) list"

definition obj_get :: "jobj option \<Rightarrow> string \<Rightarrow> json option" where
  \<comment> \<open>\<open>o?.[k]\<close>\<close>
  "obj_get ob k = (case ob of None \<Rightarrow> None | Some al \<Rightarrow> map_of al k)"

definition obj_spread :: "jobj \<Rightarrow> jobj \<Rightarrow> jobj" where
  \<comment> \<open>\<open>{ ...a, ...b }\<close>: keys of \<open>a\<close> keep their place, new keys of \<open>b\<close> are appended\<close>
  "obj_spread a b = foldl (\<lambda>acc kv. AList.update (fst kv) (snd kv) acc) a b"

fun truthy :: "json option \<Rightarrow> bool" where
  "truthy None = False"
| "truthy (Some JNull) = False"
| "truthy (Some (JBool b)) = b"
| "truthy (Some (JNum r)) = (r \<noteq> 0)"
| "truthy (Some (JStr s)) = (s \<noteq> [])"
| "truthy (Some (JArr xs)) = True"
| "truthy (Some (JObj kvs)) = True"

fun strict_eq :: "json option \<Rightarrow> json \<Rightarrow> bool" where
  \<comment> \<open>\<open>===\<close> between a value read from the document and one read from a rule: primitives
      compare by value, two objects or arrays are never the same reference\<close>
  "strict_eq (Some JNull) JNull = True"
| "strict_eq (Some (JBool a)) (JBool b) = (a = b)"
| "strict_eq (Some (JNum a)) (JNum b) = (a = b)"
| "strict_eq (Some (JStr a)) (JStr b) = (a = b)"
| "strict_eq _ _ = False"

subsection \<open>Nodes\<close>

record transform =
  t_x :: "real option"
  t_y :: "real option"
  t_rotation :: "real option"
  t_scaleX :: "real option"
  t_scaleY :: "real option"
  t_originX :: "real option"
  t_originY :: "real option"

definition empty_transform :: transform where
  "empty_transform = \<lparr>t_x = None, t_y = None, t_rotation = None, t_scaleX = None,
     t_scaleY = None, t_originX = None, t_originY = None\<rparr>"

record tweenDef = tween +
  tw_property :: string

text \<open>
  The fields every node variant has, and \<open>n_props\<close> for the properties of the variant
  (\<open>width\<close>, \<open>radius\<close>, \<open>href\<close>, \<open>emitters\<close>, ...). The variant tag \<open>n_type\<close> is a string,
  as in the document. A node carries its \<open>children\<close> list; only a node whose tag is
  \<open>group\<close> is ever descended into.
\<close>

record nodeFields =
  n_id :: string
  n_type :: string
  n_name :: "string option"
  n_transform :: "transform option"
  n_style :: "jobj option"
  n_data :: "jobj option"
  n_tween :: "tweenDef option"
  n_interactive :: "bool option"
  n_props :: jobj

datatype node = Node (own: nodeFields) (children: "node list")

abbreviation nid :: "node \<Rightarrow> string" where
  "nid n \<equiv> n_id (own n)"

abbreviation isGroup :: "node \<Rightarrow> bool" where
  "isGroup n \<equiv> n_type (own n) = ''group''"

subsection \<open>Walking the tree (scene/helpers)\<close>

fun walkNodes :: "node \<Rightarrow> node list"
  and walkList :: "node list \<Rightarrow> node list" where
  "walkNodes (Node f cs) = Node f cs # (if n_type f = ''group'' then walkList cs else [])"
| "walkList [] = []"
| "walkList (c # cs) = walkNodes c @ walkList cs"

definition allNodeIds :: "node \<Rightarrow> string list" where
  "allNodeIds rt = map nid (walkNodes rt)"

text \<open>\<open>findNode\<close> (scene/tools) and \<open>findNodeInGroup\<close> (scene/helpers) are the same
  pre-order search for the first node with the id.\<close>

fun findNode :: "node \<Rightarrow> string \<Rightarrow> node option"
  and findNodeList :: "node list \<Rightarrow> string \<Rightarrow> node option" where
  "findNode (Node f cs) i =
     (if n_id f = i then Some (Node f cs)
      else if n_type f = ''group'' then findNodeList cs i
      else None)"
| "findNodeList [] i = None"
| "findNodeList (c # cs) i =
     (case findNode c i of Some found \<Rightarrow> Some found | None \<Rightarrow> findNodeList cs i)"

section \<open>Selector matching (scene/rules)\<close>

text \<open>
  \<open>selector.trim()\<close> removes the white space and the line terminators of the language from
  both ends: \<open>whiteSpace\<close> lists their code points (tab, line feed, vertical tab, form feed,
  carriage return, space, no-break space, the other space separators of Unicode, the line and
  paragraph separators and the byte order mark). A \<open>char\<close> is a code unit below 256, read by
  \<open>of_char\<close>.
\<close>

definition whiteSpace :: "nat list" where
  "whiteSpace =
     [0x09, 0x0A, 0x0B, 0x0C, 0x0D, 0x20, 0xA0, 0x1680,
      0x2000, 0x2001, 0x2002, 0x2003, 0x2004, 0x2005, 0x2006, 0x2007, 0x2008, 0x2009, 0x200A,
      0x2028, 0x2029, 0x202F, 0x205F, 0x3000, 0xFEFF]"

definition is_space :: "char \<Rightarrow> bool" where
  "is_space c = ((of_char c :: nat) \<in> set whiteSpace)"

definition trim :: "string \<Rightarrow> string" where
  "trim s = rev (dropWhile is_space (rev (dropWhile is_space s)))"

definition nodeMatchesSelector :: "node \<Rightarrow> string \<Rightarrow> bool" where
  "nodeMatchesSelector node selector =
     (let s = trim selector in
      if s = ''*'' then truthy (obj_get (n_data (own node)) ''entityType'')
      else if CHR '':'' \<notin> set s then False
      else
        let prefix = takeWhile (\<lambda>c. c \<noteq> CHR '':'') s;
            val = tl (dropWhile (\<lambda>c. c \<noteq> CHR '':'') s)
        in if prefix = ''entityType''
             then obj_get (n_data (own node)) ''entityType'' = Some (JStr val)
           else if prefix = ''tag''
             then (case obj_get (n_data (own node)) ''tags'' of
                     Some (JArr tags) \<Rightarrow> JStr val \<in> set tags
                   | _ \<Rightarrow> False)
           else if prefix = ''name'' then n_name (own node) = Some val
           else if prefix = ''type'' then n_type (own node) = val
           else False)"

text \<open>
  The grammar in the words of the specification, for a selector without surrounding white
  space: \<open>*\<close> asks for an entity type, and \<open>prefix:value\<close> has one of four prefixes.
  Every other string matches nothing.
\<close>

definition selectorGrammar :: "node \<Rightarrow> string \<Rightarrow> bool" where
  "selectorGrammar node s =
     (if s = ''*'' then truthy (obj_get (n_data (own node)) ''entityType'')
      else (\<exists>v. s = ''entityType:'' @ v \<and> obj_get (n_data (own node)) ''entityType'' = Some (JStr v))
         \<or> (\<exists>v tags. s = ''tag:'' @ v \<and> obj_get (n_data (own node)) ''tags'' = Some (JArr tags)
                \<and> JStr v \<in> set tags)
         \<or> (\<exists>v. s = ''name:'' @ v \<and> n_name (own node) = Some v)
         \<or> (\<exists>v. s = ''type:'' @ v \<and> n_type (own node) = v))"

text \<open>A node with an id, a variant tag and a \<open>data\<close> map, and nothing else: the nodes of the
  examples below.\<close>

definition plainNode :: "string \<Rightarrow> string \<Rightarrow> jobj option \<Rightarrow> node list \<Rightarrow> node" where
  "plainNode i ty d cs =
     Node \<lparr>n_id = i, n_type = ty, n_name = None, n_transform = None, n_style = None,
            n_data = d, n_tween = None, n_interactive = None, n_props = []\<rparr> cs"

section \<open>Rule engine (scene/rules)\<close>

subsection \<open>Rules\<close>

record proximity =
  px_target :: string
  px_distance :: real

record condition =
  c_selector :: string
  c_proximity :: "proximity option"
  c_state :: "jobj option"
  c_cooldownMs :: "real option"
  c_probability :: "real option"

datatype effectType = Transform | Style | Data | Counter | Spawn | Remove | TweenEff

datatype trigger = Tick | Interaction | Proximity | Timer

record effect =
  e_type :: effectType
  e_dx :: "real option"
  e_dy :: "real option"
  e_dRotation :: "real option"
  e_styleUpdates :: "jobj option"
  e_dataUpdates :: "jobj option"
  e_field :: "string option"
  e_delta :: "real option"
  e_spawnNode :: "jobj option"
  e_tween :: "tweenDef option"
  e_variance :: "real option"
  e_probability :: "real option"

record rule =
  r_id :: string
  r_name :: string
  r_description :: string
  r_enabled :: bool
  r_trigger :: trigger
  r_condition :: condition
  r_effect :: effect

subsection \<open>What the engine reads from its environment\<close>

text \<open>
  \<open>Math.random\<close> is a sequence of draws from \<open>[0, 1)\<close>, read through a counter that
  every call advances; \<open>Date.now\<close> is the wall clock; \<open>numToString\<close> is the conversion of a
  number to a string that \<open>+\<close> applies when its left operand is not numeric.
\<close>

record env =
  random :: "nat \<Rightarrow> real"
  dateNow :: real
  numToString :: "real \<Rightarrow> string"

record vec2 =
  v_x :: real
  v_y :: real

definition dist :: "vec2 \<Rightarrow> vec2 \<Rightarrow> real" where
  "dist a b = (let dx = v_x a - v_x b; dy = v_y a - v_y b in sqrt (dx * dx + dy * dy))"

definition nodePos :: "node \<Rightarrow> vec2" where
  "nodePos node =
     \<lparr>v_x = (case n_transform (own node) of None \<Rightarrow> 0 | Some t \<Rightarrow> orElse (t_x t) 0),
      v_y = (case n_transform (own node) of None \<Rightarrow> 0 | Some t \<Rightarrow> orElse (t_y t) 0)\<rparr>"

definition applyVariance :: "env \<Rightarrow> nat \<Rightarrow> real \<Rightarrow> real \<Rightarrow> real \<times> nat" where
  "applyVariance ev k v variance =
     (if variance \<le> 0 then (v, k)
      else (v * (1 + (random ev k * 2 - 1) * variance), Suc k))"

definition collectNodes :: "node \<Rightarrow> node list" where
  "collectNodes rt = walkNodes rt"

subsection \<open>Condition check\<close>

type_synonym cooldowns = "string \<rightharpoonup> (string \<rightharpoonup> real)"

definition checkCondition ::
  "env \<Rightarrow> nat \<Rightarrow> rule \<Rightarrow> node \<Rightarrow> node list \<Rightarrow> real \<Rightarrow> cooldowns \<Rightarrow> bool \<times> nat" where
  "checkCondition ev k rule node allNodes now cds =
     (let cond = r_condition rule in
      if \<not> nodeMatchesSelector node (c_selector cond) then (False, k)
      else if (case c_state cond of
                 None \<Rightarrow> False
               | Some st \<Rightarrow> \<exists>kv \<in> set st. \<not> strict_eq (obj_get (n_data (own node)) (fst kv)) (snd kv))
        then (False, k)
      else if (case c_proximity cond of
                 None \<Rightarrow> False
               | Some px \<Rightarrow>
                   \<not> (\<exists>n \<in> set allNodes.
                         nid n \<noteq> nid node
                       \<and> nodeMatchesSelector n (px_target px)
                       \<and> dist (nodePos node) (nodePos n) \<le> px_distance px))
        then (False, k)
      else if (case c_cooldownMs cond of
                 None \<Rightarrow> False
               | Some ms \<Rightarrow>
                   ms \<noteq> 0
                 \<and> (let perNode = cds (r_id rule);
                        last = (case perNode of
                                  None \<Rightarrow> 0
                                | Some m \<Rightarrow> orElse (m (nid node)) 0)
                    in now - last < ms))
        then (False, k)
      else (case c_probability cond of
              None \<Rightarrow> (True, k)
            | Some p \<Rightarrow> (\<not> random ev k > p, Suc k)))"

subsection \<open>Effects\<close>

datatype pendingOp = PSpawn jobj vec2 | PRemove string

fun js_toString :: "(real \<Rightarrow> string) \<Rightarrow> json \<Rightarrow> string"
  and js_join :: "(real \<Rightarrow> string) \<Rightarrow> json list \<Rightarrow> string" where
  "js_toString nts JNull = ''null''"
| "js_toString nts (JBool b) = (if b then ''true'' else ''false'')"
| "js_toString nts (JNum r) = nts r"
| "js_toString nts (JStr s) = s"
| "js_toString nts (JArr xs) = js_join nts xs"
| "js_toString nts (JObj kvs) = ''[object Object]''"
| "js_join nts [] = []"
| "js_join nts (x # xs) =
     (if x = JNull then [] else js_toString nts x) @ (if xs = [] then [] else '','' @ js_join nts xs)"

definition js_plus :: "(real \<Rightarrow> string) \<Rightarrow> json \<Rightarrow> real \<Rightarrow> json" where
  \<comment> \<open>\<open>cur + delta\<close> with \<open>delta\<close> a number\<close>
  "js_plus nts cur d =
     (case cur of
        JNum a \<Rightarrow> JNum (a + d)
      | JNull \<Rightarrow> JNum d
      | JBool b \<Rightarrow> JNum ((if b then 1 else 0) + d)
      | other \<Rightarrow> JStr (js_toString nts other @ nts d))"

definition bump :: "env \<Rightarrow> nat \<Rightarrow> real option \<Rightarrow> real option \<Rightarrow> real \<Rightarrow> real option \<times> bool \<times> nat" where
  \<comment> \<open>\<open>if (d != null) { t.f = (t.f ?? 0) + applyVariance(d, variance); changed = true }\<close>\<close>
  "bump ev k cur d variance =
     (case d of
        None \<Rightarrow> (cur, False, k)
      | Some dv \<Rightarrow> (let (a, k1) = applyVariance ev k dv variance
                   in (Some (orElse cur 0 + a), True, k1)))"

definition applyEffect ::
  "env \<Rightarrow> nat \<Rightarrow> rule \<Rightarrow> node \<Rightarrow> pendingOp list \<Rightarrow> node option \<times> pendingOp list \<times> nat" where
  "applyEffect ev k rule node pending =
     (let eff = r_effect rule;
          gate = (case e_probability eff of None \<Rightarrow> False | Some p \<Rightarrow> random ev k > p);
          k0 = (case e_probability eff of None \<Rightarrow> k | Some p \<Rightarrow> Suc k)
      in if gate then (None, pending, k0)
      else
        let variance = orElse (e_variance eff) 0;
            f = own node
        in case e_type eff of
             Transform \<Rightarrow>
               let t = orElse (n_transform f) empty_transform;
                   (x1, cx, k1) = bump ev k0 (t_x t) (e_dx eff) variance;
                   (y1, cy, k2) = bump ev k1 (t_y t) (e_dy eff) variance;
                   (r1, cr, k3) = bump ev k2 (t_rotation t) (e_dRotation eff) variance;
                   t1 = t\<lparr>t_x := x1, t_y := y1, t_rotation := r1\<rparr>
               in (if cx \<or> cy \<or> cr
                   then Some (Node (f\<lparr>n_transform := Some t1\<rparr>) (children node))
                   else None, pending, k3)
           | Style \<Rightarrow>
               (case e_styleUpdates eff of
                  None \<Rightarrow> (None, pending, k0)
                | Some ups \<Rightarrow>
                    (Some (Node (f\<lparr>n_style := Some (obj_spread (orElse (n_style f) []) ups)\<rparr>)
                             (children node)), pending, k0))
           | Data \<Rightarrow>
               (case e_dataUpdates eff of
                  None \<Rightarrow> (None, pending, k0)
                | Some ups \<Rightarrow>
                    (Some (Node (f\<lparr>n_data := Some (obj_spread (orElse (n_data f) []) ups)\<rparr>)
                             (children node)), pending, k0))
           | Counter \<Rightarrow>
               (case (e_field eff, e_delta eff) of
                  (Some fld, Some dl) \<Rightarrow>
                    if fld = [] then (None, pending, k0)
                    else
                      let cur = (case obj_get (n_data f) fld of
                                   None \<Rightarrow> JNum 0 | Some JNull \<Rightarrow> JNum 0 | Some v \<Rightarrow> v);
                          (delta, k1) = applyVariance ev k0 dl variance
                      in (Some (Node (f\<lparr>n_data := Some (obj_spread (orElse (n_data f) [])
                                           [(fld, js_plus (numToString ev) cur delta)])\<rparr>)
                                  (children node)), pending, k1)
                | _ \<Rightarrow> (None, pending, k0))
           | TweenEff \<Rightarrow>
               (case e_tween eff of
                  None \<Rightarrow> (None, pending, k0)
                | Some tw \<Rightarrow>
                    (Some (Node (f\<lparr>n_tween := Some (tw\<lparr>tw_startedAt := Some (dateNow ev)\<rparr>)\<rparr>)
                             (children node)), pending, k0))
           | Spawn \<Rightarrow>
               (case e_spawnNode eff of
                  None \<Rightarrow> (None, pending, k0)
                | Some tpl \<Rightarrow> (None, pending @ [PSpawn tpl (nodePos node)], k0))
           | Remove \<Rightarrow> (None, pending @ [PRemove (n_id f)], k0))"

subsection \<open>Substituting a node in the working tree\<close>

fun replaceNode :: "node \<Rightarrow> string \<Rightarrow> node \<Rightarrow> bool \<times> node"
  and replaceIn :: "node list \<Rightarrow> string \<Rightarrow> node \<Rightarrow> bool \<times> node list" where
  "replaceNode (Node f cs) i r = (let (b, cs1) = replaceIn cs i r in (b, Node f cs1))"
| "replaceIn [] i r = (False, [])"
| "replaceIn (c # cs) i r =
     (if n_id (own c) = i then (True, r # cs)
      else if n_type (own c) = ''group'' \<and> fst (replaceNode c i r)
        then (True, snd (replaceNode c i r) # cs)
      else (let (b, cs1) = replaceIn cs i r in (b, c # cs1)))"

text \<open>
  The replacement built by \<open>applyEffect\<close> copies the matched node's fields and shares its
  \<open>children\<close> array (the object spread copies the reference). Substitutions made earlier in
  the same tick were written into that array, so the replacement carries the children that
  the working tree has at the matched node at this moment, not those the node had when
  \<open>collectNodes\<close> ran. In this value model the current children are read from the working
  tree by the node's id, ids being unique in a document.
\<close>

definition shareChildren :: "node \<Rightarrow> node \<Rightarrow> node" where
  "shareChildren working m =
     (case findNode working (nid m) of
        Some cur \<Rightarrow> Node (own m) (children cur)
      | None \<Rightarrow> m)"

subsection \<open>One tick\<close>

record stats =
  rulesEvaluated :: nat
  rulesFired :: nat
  nodesAffected :: nat

record tickState =
  ts_working :: node
  ts_cooldowns :: cooldowns
  ts_pending :: "pendingOp list"
  ts_rand :: nat
  ts_fired :: bool
  ts_stats :: stats

definition nodeStep :: "env \<Rightarrow> rule \<Rightarrow> node list \<Rightarrow> real \<Rightarrow> tickState \<Rightarrow> node \<Rightarrow> tickState" where
  "nodeStep ev rule allNodes now st node =
     (let (ok, k1) = checkCondition ev (ts_rand st) rule node allNodes now (ts_cooldowns st) in
      if \<not> ok then st\<lparr>ts_rand := k1\<rparr>
      else
        let (modified, pending1, k2) = applyEffect ev k1 rule node (ts_pending st);
            st1 = st\<lparr>ts_pending := pending1, ts_rand := k2\<rparr>
        in case modified of
             Some m \<Rightarrow>
               st1\<lparr>ts_working :=
                      snd (replaceNode (ts_working st) (nid node) (shareChildren (ts_working st) m)),
                    ts_stats := (ts_stats st)\<lparr>nodesAffected := Suc (nodesAffected (ts_stats st))\<rparr>,
                    ts_fired := True,
                    ts_cooldowns :=
                      (ts_cooldowns st)(r_id rule \<mapsto>
                         (orElse (ts_cooldowns st (r_id rule)) Map.empty)(nid node \<mapsto> now))\<rparr>
           | None \<Rightarrow>
               if e_type (r_effect rule) = Spawn \<or> e_type (r_effect rule) = Remove
               then st1\<lparr>ts_fired := True\<rparr>
               else st1)"

definition ruleStep :: "env \<Rightarrow> node list \<Rightarrow> real \<Rightarrow> tickState \<Rightarrow> rule \<Rightarrow> tickState" where
  "ruleStep ev allNodes now st rule =
     (let cds = (if ts_cooldowns st (r_id rule) = None
                 then (ts_cooldowns st)(r_id rule \<mapsto> Map.empty)
                 else ts_cooldowns st);
          st0 = st\<lparr>ts_cooldowns := cds,
                   ts_stats := (ts_stats st)\<lparr>rulesEvaluated := Suc (rulesEvaluated (ts_stats st))\<rparr>,
                   ts_fired := False\<rparr>;
          st1 = foldl (nodeStep ev rule allNodes now) st0 allNodes
      in if ts_fired st1
         then st1\<lparr>ts_stats := (ts_stats st1)\<lparr>rulesFired := Suc (rulesFired (ts_stats st1))\<rparr>\<rparr>
         else st1)"

definition tickRules :: "rule list \<Rightarrow> rule list" where
  "tickRules rules = filter (\<lambda>r. r_enabled r \<and> r_trigger r = Tick) rules"

text \<open>
  The state updater that one tick of \<open>useRuleTick\<close> runs: \<open>prevScene\<close> is cloned (a JSON
  round trip, the identity on a document), the nodes are collected once, and every tick rule
  runs over that list. The result is the working tree, the cooldown map, the queued
  structural operations and the statistics.
\<close>

definition ruleTick :: "env \<Rightarrow> nat \<Rightarrow> rule list \<Rightarrow> real \<Rightarrow> node \<Rightarrow> cooldowns \<Rightarrow> tickState" where
  "ruleTick ev k rules now prevRoot cds =
     (let working = prevRoot;
          allNodes = collectNodes working
      in foldl (ruleStep ev allNodes now)
           \<lparr>ts_working = working, ts_cooldowns = cds, ts_pending = [], ts_rand = k,
            ts_fired = False,
            ts_stats = \<lparr>rulesEvaluated = 0, rulesFired = 0, nodesAffected = 0\<rparr>\<rparr>
           (tickRules rules))"

subsection \<open>The rules of the scenarios\<close>

text \<open>
  \<open>fishRule\<close> is the tick rule \<open>{selector: "entityType:fish", effect: {type: "transform",
  dx: 2}}\<close> with a given id and variance; \<open>moved\<close> is the replacement it builds for a node.
  \<open>spawnRule\<close> is a tick rule that spawns a node at every fish, with a cooldown.
\<close>

definition noEffect :: "effectType \<Rightarrow> effect" where
  "noEffect ty = \<lparr>e_type = ty, e_dx = None, e_dy = None, e_dRotation = None,
     e_styleUpdates = None, e_dataUpdates = None, e_field = None, e_delta = None,
     e_spawnNode = None, e_tween = None, e_variance = None, e_probability = None\<rparr>"

definition fishCondition :: "real option \<Rightarrow> condition" where
  "fishCondition cooldown = \<lparr>c_selector = ''entityType:fish'', c_proximity = None,
     c_state = None, c_cooldownMs = cooldown, c_probability = None\<rparr>"

definition fishRule :: "string \<Rightarrow> real option \<Rightarrow> rule" where
  "fishRule rid variance =
     \<lparr>r_id = rid, r_name = ''Fish Swim'', r_description = ''Fish drift right'',
      r_enabled = True, r_trigger = Tick, r_condition = fishCondition None,
      r_effect = (noEffect Transform)\<lparr>e_dx := Some 2, e_variance := variance\<rparr>\<rparr>"

definition moved :: "node \<Rightarrow> node" where
  "moved n =
     (let t = orElse (n_transform (own n)) empty_transform
      in Node ((own n)\<lparr>n_transform := Some (t\<lparr>t_x := Some (orElse (t_x t) 0 + 2)\<rparr>)\<rparr>)
              (children n))"

definition spawnRule :: "string \<Rightarrow> real \<Rightarrow> jobj \<Rightarrow> rule" where
  "spawnRule rid cooldown template =
     \<lparr>r_id = rid, r_name = ''Spawn'', r_description = ''Spawn at every fish'',
      r_enabled = True, r_trigger = Tick, r_condition = fishCondition (Some cooldown),
      r_effect = (noEffect Spawn)\<lparr>e_spawnNode := Some template\<rparr>\<rparr>"

definition isFish :: "node \<Rightarrow> bool" where
  "isFish n = (obj_get (n_data (own n)) ''entityType'' = Some (JStr ''fish''))"

definition noCooldowns :: cooldowns where
  "noCooldowns = Map.empty"

definition testEnv :: env where
  "testEnv = \<lparr>random = (\<lambda>k. 0), dateNow = 0, numToString = (\<lambda>r. [])\<rparr>"

section \<open>Scene tools (scene/tools)\<close>

subsection \<open>The scene graph\<close>

record camera =
  cam_x :: real
  cam_y :: real
  cam_zoom :: real
  cam_rotation :: "real option"


record gradient =
  g_id :: string
  g_def :: jobj

record sceneGraph =
  sg_root :: node
  sg_camera :: "camera option"
  sg_background :: string
  sg_gradients :: "gradient list option"
  sg_filters :: "json list"
  sg_width :: real
  sg_height :: real

text \<open>
  The tool context: the scene stored in the shared state (absent before the first write),
  the time stamp of the call, and \<open>uid\<close>, the generator of fresh ids (a sequence read through
  a counter).
\<close>

record toolCtx =
  ctx_scene :: "sceneGraph option"
  ctx_timestamp :: real
  ctx_uid :: "nat \<Rightarrow> string"

definition emptyRoot :: node where
  "emptyRoot = Node \<lparr>n_id = ''root'', n_type = ''group'', n_name = None, n_transform = None,
     n_style = None, n_data = None, n_tween = None, n_interactive = None, n_props = []\<rparr> []"

definition defaultCamera :: camera where
  "defaultCamera = \<lparr>cam_x = 400, cam_y = 300, cam_zoom = 1, cam_rotation = None\<rparr>"

definition getScene :: "toolCtx \<Rightarrow> sceneGraph" where
  "getScene ctx =
     orElse (ctx_scene ctx)
       \<lparr>sg_root = emptyRoot, sg_camera = Some defaultCamera, sg_background = ''#1a1a2e'',
        sg_gradients = Some [], sg_filters = [], sg_width = 800, sg_height = 600\<rparr>"

subsection \<open>Tree edits\<close>

fun removeFirst :: "string \<Rightarrow> node list \<Rightarrow> node list" where
  \<comment> \<open>\<open>children.splice(children.findIndex(c => c.id === id), 1)\<close>\<close>
  "removeFirst i [] = []"
| "removeFirst i (c # cs) = (if n_id (own c) = i then cs else c # removeFirst i cs)"

fun removeNode :: "node \<Rightarrow> string \<Rightarrow> bool \<times> node"
  and removeDeep :: "node list \<Rightarrow> string \<Rightarrow> bool \<times> node list" where
  "removeNode (Node f cs) i =
     (if \<exists>c \<in> set cs. n_id (own c) = i then (True, Node f (removeFirst i cs))
      else (let (b, cs1) = removeDeep cs i in (b, Node f cs1)))"
| "removeDeep [] i = (False, [])"
| "removeDeep (c # cs) i =
     (if n_type (own c) = ''group'' \<and> fst (removeNode c i)
        then (True, snd (removeNode c i) # cs)
      else (let (b, cs1) = removeDeep cs i in (b, c # cs1)))"


text \<open>
  The handlers edit the node that \<open>findNode\<close> returned, in place. \<open>modifyNode g\<close> is
  that edit on the tree value: \<open>g\<close> is applied to the first node with the id, in the search
  order of \<open>findNode\<close>.
\<close>

fun modifyNode :: "(node \<Rightarrow> node) \<Rightarrow> node \<Rightarrow> string \<Rightarrow> node"
  and modifyList :: "(node \<Rightarrow> node) \<Rightarrow> node list \<Rightarrow> string \<Rightarrow> node list" where
  "modifyNode g (Node f cs) i =
     (if n_id f = i then g (Node f cs)
      else if n_type f = ''group'' then Node f (modifyList g cs i)
      else Node f cs)"
| "modifyList g [] i = []"
| "modifyList g (c # cs) i =
     (case findNode c i of
        Some found \<Rightarrow> modifyNode g c i # cs
      | None \<Rightarrow> c # modifyList g cs i)"

text \<open>
  The removal in the words of the specification: \<open>prune S\<close> drops every node below the root
  whose id is in \<open>S\<close>, with its subtree. \<open>descIds\<close> lists the ids of the nodes below a node, \<open>listIds\<close> those of the
  nodes of a child list and below them.
\<close>

fun prune :: "string set \<Rightarrow> node \<Rightarrow> node"
  and pruneList :: "string set \<Rightarrow> node list \<Rightarrow> node list" where
  "prune S (Node f cs) = Node f (pruneList S cs)"
| "pruneList S [] = []"
| "pruneList S (c # cs) =
     (if n_id (own c) \<in> S then pruneList S cs
      else (if n_type (own c) = ''group'' then prune S c else c) # pruneList S cs)"

definition listIds :: "node list \<Rightarrow> string list" where
  "listIds cs = map nid (walkList cs)"

definition descIds :: "node \<Rightarrow> string list" where
  "descIds n = listIds (children n)"

text \<open>The own fields of the first node with an id, in a tree or below a child list.\<close>

definition ownAt :: "node \<Rightarrow> string \<Rightarrow> nodeFields option" where
  "ownAt w j = map_option own (findNode w j)"

definition ownIn :: "node list \<Rightarrow> string \<Rightarrow> nodeFields option" where
  "ownIn cs j = map_option own (findNodeList cs j)"

text \<open>
  What one node does to the working tree when the rule is \<open>fishRule\<close>, and the relation
  that such steps keep between the document \<open>rt\<close> and the working tree: the same root fields,
  the same ids below the root and the same variant tag at every id.
\<close>

definition stepW :: "node \<Rightarrow> node \<Rightarrow> node" where
  "stepW w m = (if isFish m then snd (replaceNode w (nid m) (shareChildren w (moved m))) else w)"

definition sameShape :: "node \<Rightarrow> node \<Rightarrow> bool" where
  "sameShape rt w =
     (own w = own rt \<and> descIds w = descIds rt
      \<and> (\<forall>j. map_option n_type (ownIn (children w) j) = map_option n_type (ownIn (children rt) j)))"

text \<open>Two documents of the rule scenarios: a root that is itself a fish at \<open>x = 0\<close>, and a
  root that holds one fish at \<open>x = 0\<close>.\<close>

definition fishFields :: "string \<Rightarrow> string \<Rightarrow> nodeFields" where
  "fishFields i ty =
     \<lparr>n_id = i, n_type = ty, n_name = None,
      n_transform = Some (empty_transform\<lparr>t_x := Some 0\<rparr>), n_style = None,
      n_data = Some [(''entityType'', JStr ''fish'')], n_tween = None, n_interactive = None,
      n_props = []\<rparr>"

definition fishRoot :: node where
  "fishRoot = Node (fishFields ''root'' ''group'') []"

definition fishPond :: node where
  "fishPond = plainNode ''root'' ''group'' None [Node (fishFields ''f1'' ''circle'') []]"

text \<open>The scene of the removal scenario: the root holds the group \<open>a\<close>, which holds \<open>b\<close>.\<close>

definition sceneAB :: sceneGraph where
  "sceneAB = \<lparr>sg_root = plainNode ''root'' ''group'' None
                 [plainNode ''a'' ''group'' None [plainNode ''b'' ''rect'' None []]],
     sg_camera = None, sg_background = ''#000'', sg_gradients = None, sg_filters = [],
     sg_width = 800, sg_height = 600\<rparr>"

subsection \<open>Operations\<close>











definition removeAll :: "node \<Rightarrow> string list \<Rightarrow> node" where
  \<comment> \<open>\<open>for (const id of nodeIds) removeNode(scene.root, id)\<close>\<close>
  "removeAll rt ids = foldl (\<lambda>r i. snd (removeNode r i)) rt ids"

subsection \<open>The remove handler\<close>

datatype removeResult = RemovedAll | Removed "string list"

record removeInput =
  rm_nodeIds :: "string list option"
  rm_clear :: "bool option"

fun removeLoop :: "node \<Rightarrow> string list \<Rightarrow> string list \<Rightarrow> node \<times> string list" where
  "removeLoop rt removed [] = (rt, removed)"
| "removeLoop rt removed (i # ids) =
     (case removeNode rt i of
        (True, rt1) \<Rightarrow> removeLoop rt1 (removed @ [i]) ids
      | (False, rt1) \<Rightarrow> removeLoop rt1 removed ids)"

definition sceneRemove :: "toolCtx \<Rightarrow> removeInput \<Rightarrow> toolCtx \<times> removeResult" where
  "sceneRemove ctx inp =
     (let scene = getScene ctx in
      if rm_clear inp = Some True
      then (ctx\<lparr>ctx_scene := Some (scene\<lparr>sg_root := Node (own (sg_root scene)) []\<rparr>)\<rparr>, RemovedAll)
      else
        let (rt, removed) = removeLoop (sg_root scene) [] (orElse (rm_nodeIds inp) [])
        in (ctx\<lparr>ctx_scene := Some (scene\<lparr>sg_root := rt\<rparr>)\<rparr>, Removed removed))"

subsection \<open>The batch handler\<close>





section \<open>Particle simulator (scene/particles)\<close>

record range =
  r_min :: real
  r_max :: real

datatype colorSpec = OneColor string | Colors "string list"

record particleEmitter =
  em_x :: real
  em_y :: real
  em_rate :: real
  em_lifetime :: real
  em_speed :: range
  em_direction :: range
  em_gravity :: "real option"
  em_color :: "colorSpec option"
  em_size :: "range option"

text \<open>The colour of a particle is \<open>None\<close> when the emitter's colour array is empty
  (\<open>colors[i]\<close> is then \<open>undefined\<close>).\<close>

record particle =
  p_x :: real
  p_y :: real
  p_vx :: real
  p_vy :: real
  p_age :: real
  p_lifetime :: real
  p_size :: real
  p_color :: "string option"

record particlesNode =
  pn_emitters :: "particleEmitter list"
  pn_maxParticles :: "real option"
  pn_particles :: "particle list option"

definition rand :: "(nat \<Rightarrow> real) \<Rightarrow> nat \<Rightarrow> real \<Rightarrow> real \<Rightarrow> real" where
  "rand rnd k lo hi = lo + rnd k * (hi - lo)"

definition degToRad :: "real \<Rightarrow> real" where
  "degToRad deg = deg * pi / 180"

text \<open>One pass of the body of the spawn loop: the draws are the angle, the speed, the size
  (when the emitter has a size range) and the colour index, in this order. The colour index is
  the floor of a product, which is rounded.\<close>

definition spawnOne :: "(nat \<Rightarrow> real) \<Rightarrow> nat \<Rightarrow> particleEmitter \<Rightarrow> particle \<times> nat" where
  "spawnOne rnd k emitter =
     (let angle = degToRad (rand rnd k (r_min (em_direction emitter)) (r_max (em_direction emitter)));
          speed = rand rnd (k + 1) (r_min (em_speed emitter)) (r_max (em_speed emitter));
          (size, k1) = (case em_size emitter of
                          None \<Rightarrow> (4, k + 2)
                        | Some sz \<Rightarrow> (rand rnd (k + 2) (r_min sz) (r_max sz), k + 3));
          colors = (case em_color emitter of
                      None \<Rightarrow> [''#ffffff'']
                    | Some (OneColor c) \<Rightarrow> [c]
                    | Some (Colors cs) \<Rightarrow> cs);
          idx = \<lfloor>fl64 (rnd k1 * real (length colors))\<rfloor>;
          color = (if 0 \<le> idx \<and> nat idx < length colors then Some (colors ! nat idx) else None)
      in (\<lparr>p_x = em_x emitter, p_y = em_y emitter,
           p_vx = cos angle * speed, p_vy = sin angle * speed,
           p_age = 0, p_lifetime = em_lifetime emitter,
           p_size = size, p_color = color\<rparr>, Suc k1))"

fun spawnLoop :: "(nat \<Rightarrow> real) \<Rightarrow> particleEmitter \<Rightarrow> nat \<Rightarrow> nat \<Rightarrow> particle list \<times> nat" where
  "spawnLoop rnd emitter 0 k = ([], k)"
| "spawnLoop rnd emitter (Suc n) k =
     (let (p, k1) = spawnOne rnd k emitter;
          (ps, k2) = spawnLoop rnd emitter n k1
      in (p # ps, k2))"

text \<open>
  The number of particles to spawn is \<open>Math.floor(emitter.rate * (dt / 1000))\<close>: the quotient
  is rounded, then the product. The loop \<open>for (i = 0; i < count; i++)\<close> does not run for a
  negative count.
\<close>

definition spawnCount :: "particleEmitter \<Rightarrow> real \<Rightarrow> int" where
  "spawnCount emitter dt = \<lfloor>fl64 (em_rate emitter * fl64 (dt / 1000))\<rfloor>"

definition spawnParticles ::
  "(nat \<Rightarrow> real) \<Rightarrow> nat \<Rightarrow> particleEmitter \<Rightarrow> real \<Rightarrow> particle list \<times> nat" where
  "spawnParticles rnd k emitter dt =
     (let count = spawnCount emitter dt in spawnLoop rnd emitter (nat count) k)"

definition tickParticles :: "particle list \<Rightarrow> particleEmitter list \<Rightarrow> real \<Rightarrow> particle list" where
  "tickParticles particles emitters dt =
     (let dtSec = dt / 1000;
          gravity = (case emitters of [] \<Rightarrow> 0 | e # _ \<Rightarrow> orElse (em_gravity e) 0)
      in filter (\<lambda>p. p_age p < p_lifetime p)
           (map (\<lambda>p. p\<lparr>p_x := p_x p + p_vx p * dtSec,
                        p_y := p_y p + p_vy p * dtSec,
                        p_vx := p_vx p,
                        p_vy := p_vy p + gravity * dtSec,
                        p_age := p_age p + dt\<rparr>) particles))"

fun spawnEach ::
  "(nat \<Rightarrow> real) \<Rightarrow> nat \<Rightarrow> particleEmitter list \<Rightarrow> real \<Rightarrow> particle list list \<times> nat" where
  \<comment> \<open>the loop over \<open>node.emitters\<close>: what each emitter spawned, in order\<close>
  "spawnEach rnd k [] dt = ([], k)"
| "spawnEach rnd k (e # es) dt =
     (let (ps, k1) = spawnParticles rnd k e dt;
          (pss, k2) = spawnEach rnd k1 es dt
      in (ps # pss, k2))"

text \<open>
  \<open>tickParticleNode\<close>: the survivors of the tick, then what each emitter spawned, and the cap.
  \<open>slice\<close> truncates its argument to an integer; the difference of the length and an integer
  \<open>maxParticles\<close> is exact.
\<close>

definition tickParticleNode ::
  "(nat \<Rightarrow> real) \<Rightarrow> nat \<Rightarrow> particlesNode \<Rightarrow> real \<Rightarrow> particle list \<times> nat" where
  "tickParticleNode rnd k node dt =
     (let mx = orElse (pn_maxParticles node) 200;
          particles0 = orElse (pn_particles node) [];
          particles1 = tickParticles particles0 (pn_emitters node) dt;
          (spawned, k1) = spawnEach rnd k (pn_emitters node) dt;
          particles2 = particles1 @ concat spawned
      in (if real (length particles2) > mx
          then drop (nat (js_trunc (real (length particles2) - mx))) particles2
          else particles2, k1))"

text \<open>
  The simulation step in the words of the specification. \<open>advance\<close> ages a particle by
  \<open>dt\<close>, moves it by its velocity and adds the gravity to its vertical velocity;
  \<open>firstGravity\<close> is the gravity of the first emitter; \<open>spawnedBy e p\<close> says that \<open>p\<close> is a
  new particle at the emitter \<open>e\<close> whose velocity comes from a speed and a direction angle
  (in degrees) in the ranges of \<open>e\<close>; \<open>specCount\<close> is the number of particles that the
  specification has an emitter spawn, \<open>floor (rate * dt / 1000)\<close>.
\<close>

definition advance :: "real \<Rightarrow> real \<Rightarrow> particle \<Rightarrow> particle" where
  "advance gravity dt p =
     p\<lparr>p_x := p_x p + p_vx p * (dt / 1000), p_y := p_y p + p_vy p * (dt / 1000),
       p_vy := p_vy p + gravity * (dt / 1000), p_age := p_age p + dt\<rparr>"

definition firstGravity :: "particleEmitter list \<Rightarrow> real" where
  "firstGravity es = (case es of [] \<Rightarrow> 0 | e # _ \<Rightarrow> orElse (em_gravity e) 0)"

definition spawnedBy :: "particleEmitter \<Rightarrow> particle \<Rightarrow> bool" where
  "spawnedBy e p =
     (\<exists>speed angle.
         r_min (em_speed e) \<le> speed \<and> speed \<le> r_max (em_speed e)
       \<and> r_min (em_direction e) \<le> angle \<and> angle \<le> r_max (em_direction e)
       \<and> p_vx p = cos (angle * pi / 180) * speed
       \<and> p_vy p = sin (angle * pi / 180) * speed
       \<and> p_x p = em_x e \<and> p_y p = em_y e \<and> p_age p = 0 \<and> p_lifetime p = em_lifetime e)"

definition specCount :: "particleEmitter \<Rightarrow> real \<Rightarrow> int" where
  "specCount emitter dt = \<lfloor>em_rate emitter * dt / 1000\<rfloor>"

text \<open>
  An emitter of 100 particles per second, and a particle system that holds only this emitter
  and no particle yet.
\<close>

definition steadyEmitter :: particleEmitter where
  "steadyEmitter =
     \<lparr>em_x = 0, em_y = 0, em_rate = 100, em_lifetime = 1000,
      em_speed = \<lparr>r_min = 1, r_max = 2\<rparr>, em_direction = \<lparr>r_min = 0, r_max = 360\<rparr>,
      em_gravity = None, em_color = None, em_size = None\<rparr>"

definition steadyNode :: particlesNode where
  "steadyNode = \<lparr>pn_emitters = [steadyEmitter], pn_maxParticles = None, pn_particles = None\<rparr>"
section \<open>Reconciler (scene/renderer-pixi)\<close>

subsection \<open>Display objects\<close>

text \<open>
  The display objects under the root container form a tree: every object has one parent, and
  \<open>addChild\<close> is only called on a new object. An object has an identity \<open>oid\<close>, the metadata
  \<open>__vv\<close> that the reconciler attaches to the object of a node, and its children. The objects
  drawn inside the container of a tilemap or a particles node carry no metadata. Paint,
  position and listeners are not part of the model. An object that is not in the tree has been
  destroyed.
\<close>

record displayObjectMeta =
  m_nodeId :: string
  m_nodeType :: string
  m_snapshot :: node

datatype dobj = DObj (oid: nat) (meta: "displayObjectMeta option") (kids: "dobj list")

text \<open>
  The render context: the root container with everything below it, the map from node ids to
  display objects, the next unused identity, and two counters of the objects constructed and
  destroyed so far.
\<close>

record renderCtx =
  rc_stage :: dobj
  rc_nodeMap :: "string \<rightharpoonup> nat"
  rc_next :: nat
  rc_created :: nat
  rc_destroyed :: nat

text \<open>The snapshot is the serialised node, without the children for a group; the model keeps
  the serialised value itself. The serialisation of the program also depends on the order of the
  keys of the node object, which a node of the model does not carry: the snapshots of one node
  object, as in two passes over the same document, are equal in both.\<close>

definition nodeSnapshot :: "node \<Rightarrow> node" where
  "nodeSnapshot node = (if n_type (own node) = ''group'' then Node (own node) [] else node)"

fun findObj :: "dobj \<Rightarrow> nat \<Rightarrow> dobj option"
  and findObjList :: "dobj list \<Rightarrow> nat \<Rightarrow> dobj option" where
  "findObj (DObj o1 m ks) i = (if o1 = i then Some (DObj o1 m ks) else findObjList ks i)"
| "findObjList [] i = None"
| "findObjList (k # ks) i = (case findObj k i of Some ob \<Rightarrow> Some ob | None \<Rightarrow> findObjList ks i)"

fun mapObj :: "nat \<Rightarrow> (dobj \<Rightarrow> dobj) \<Rightarrow> dobj \<Rightarrow> dobj" where
  \<comment> \<open>a write to the object with the identity\<close>
  "mapObj i g (DObj o1 m ks) = (if o1 = i then g (DObj o1 m ks) else DObj o1 m (map (mapObj i g) ks))"

fun deleteObj :: "nat \<Rightarrow> dobj \<Rightarrow> dobj" where
  \<comment> \<open>\<open>removeFromParent\<close> of the object with the identity\<close>
  "deleteObj i (DObj o1 m ks) = DObj o1 m (map (deleteObj i) (filter (\<lambda>k. oid k \<noteq> i) ks))"

fun objCount :: "dobj \<Rightarrow> nat" where
  "objCount (DObj o1 m ks) = Suc (sum_list (map objCount ks))"

definition setMeta :: "nat \<Rightarrow> displayObjectMeta \<Rightarrow> dobj \<Rightarrow> dobj" where
  "setMeta i mt stage = mapObj i (\<lambda>ob. DObj (oid ob) (Some mt) (kids ob)) stage"

definition addChild :: "nat \<Rightarrow> dobj \<Rightarrow> dobj \<Rightarrow> dobj" where
  "addChild parent ob stage = mapObj parent (\<lambda>p. DObj (oid p) (meta p) (kids p @ [ob])) stage"

definition nodeMeta :: "node \<Rightarrow> displayObjectMeta" where
  "nodeMeta node =
     \<lparr>m_nodeId = nid node, m_nodeType = n_type (own node), m_snapshot = nodeSnapshot node\<rparr>"

text \<open>\<open>ctx.nodeMap.get(id)\<close>: the object, read in the tree. An entry whose object is not in
  the tree, a destroyed object, reads as absent.\<close>

definition getObj :: "renderCtx \<Rightarrow> string \<Rightarrow> dobj option" where
  "getObj st i = (case rc_nodeMap st i of None \<Rightarrow> None | Some o1 \<Rightarrow> findObj (rc_stage st) o1)"

subsection \<open>Creating and destroying\<close>

definition leafTypes :: "string list" where
  "leafTypes = [''rect'', ''circle'', ''ellipse'', ''line'', ''polyline'', ''polygon'', ''path'',
     ''text'', ''image'', ''sprite'']"

text \<open>
  \<open>createDisplayObject\<close> builds the object of a node; for a group it builds and registers
  the objects of all descendants too. It returns \<open>None\<close> for an unknown variant tag. The
  parameter \<open>drawn\<close> is the number of tiles or particles drawn inside the container of a tilemap
  or particles node.
\<close>

fun createDisplayObject :: "(node \<Rightarrow> nat) \<Rightarrow> node \<Rightarrow> renderCtx \<Rightarrow> dobj option \<times> renderCtx"
  and createKids :: "(node \<Rightarrow> nat) \<Rightarrow> node list \<Rightarrow> renderCtx \<Rightarrow> dobj list \<times> renderCtx" where
  "createDisplayObject drawn (Node f cs) st =
     (if n_type f = ''group'' then
        (let o1 = rc_next st;
             st0 = st\<lparr>rc_next := Suc o1, rc_created := Suc (rc_created st)\<rparr>;
             (ks, st1) = createKids drawn cs st0
         in (Some (DObj o1 None ks), st1))
      else if n_type f = ''tilemap'' \<or> n_type f = ''particles'' then
        (let o1 = rc_next st;
             n = drawn (Node f cs);
             ks = map (\<lambda>j. DObj (Suc o1 + j) None []) [0..<n]
         in (Some (DObj o1 None ks),
             st\<lparr>rc_next := Suc o1 + n, rc_created := Suc (rc_created st) + n\<rparr>))
      else if n_type f \<in> set leafTypes then
        (Some (DObj (rc_next st) None []),
         st\<lparr>rc_next := Suc (rc_next st), rc_created := Suc (rc_created st)\<rparr>)
      else (None, st))"
| "createKids drawn [] st = ([], st)"
| "createKids drawn (c # cs) st =
     (case createDisplayObject drawn c st of
        (None, st1) \<Rightarrow> createKids drawn cs st1
      | (Some ob, st1) \<Rightarrow>
          (let ob1 = DObj (oid ob) (Some (nodeMeta c)) (kids ob);
               st2 = st1\<lparr>rc_nodeMap := (rc_nodeMap st1)(nid c \<mapsto> oid ob)\<rparr>;
               (rest, st3) = createKids drawn cs st2
           in (ob1 # rest, st3)))"

text \<open>
  \<open>removeDisplayObject\<close>: the children that carry metadata are removed first, from the last
  to the first, then the object leaves its parent and is destroyed with what is left below it,
  and the map entry of \<open>nodeId\<close> is deleted.
\<close>

fun removeDisplayObject :: "dobj \<Rightarrow> string \<Rightarrow> renderCtx \<Rightarrow> renderCtx"
  and removeKids :: "dobj list \<Rightarrow> renderCtx \<Rightarrow> renderCtx" where
  "removeDisplayObject (DObj o1 m ks) nodeId st =
     (let st1 = removeKids ks st
      in st1\<lparr>rc_stage := deleteObj o1 (rc_stage st1),
             rc_nodeMap := (rc_nodeMap st1)(nodeId := None),
             rc_destroyed := rc_destroyed st1 + 1
                + sum_list (map objCount (filter (\<lambda>k. meta k = None) ks))\<rparr>)"
| "removeKids [] st = st"
| "removeKids (k # ks) st =
     (let st1 = removeKids ks st
      in case meta k of
           None \<Rightarrow> st1
         | Some mt \<Rightarrow> removeDisplayObject k (m_nodeId mt) st1)"

definition removeById :: "string \<Rightarrow> renderCtx \<Rightarrow> renderCtx" where
  \<comment> \<open>\<open>removeDisplayObject(ctx.nodeMap.get(id), id, ctx)\<close>\<close>
  "removeById i st = (case getObj st i of None \<Rightarrow> st | Some ob \<Rightarrow> removeDisplayObject ob i st)"

subsection \<open>Diffing\<close>

definition setChildIndex :: "nat \<Rightarrow> nat \<Rightarrow> dobj list \<Rightarrow> dobj list" where
  "setChildIndex o1 idx ks =
     (case filter (\<lambda>k. oid k = o1) ks of
        [] \<Rightarrow> ks
      | ob # _ \<Rightarrow> (let rest = filter (\<lambda>k. oid k \<noteq> o1) ks in take idx rest @ ob # drop idx rest))"

fun indexOfObj :: "nat \<Rightarrow> dobj list \<Rightarrow> nat option" where
  "indexOfObj o1 [] = None"
| "indexOfObj o1 (k # ks) =
     (if oid k = o1 then Some 0 else map_option Suc (indexOfObj o1 ks))"

definition ensureOrder :: "string \<Rightarrow> nat \<Rightarrow> nat \<Rightarrow> renderCtx \<Rightarrow> renderCtx" where
  \<comment> \<open>the z-order step for the child at position \<open>i\<close> of the group\<close>
  "ensureOrder childId i container st =
     (case (getObj st childId, findObj (rc_stage st) container) of
        (Some childObj, Some cont) \<Rightarrow>
          (case indexOfObj (oid childObj) (kids cont) of
             None \<Rightarrow> st
           | Some currentIndex \<Rightarrow>
               if currentIndex \<noteq> i \<and> i < length (kids cont)
               then st\<lparr>rc_stage :=
                      mapObj container
                        (\<lambda>c. DObj (oid c) (meta c)
                               (setChildIndex (oid childObj) (min i (length (kids c) - 1)) (kids c)))
                        (rc_stage st)\<rparr>
               else st)
      | _ \<Rightarrow> st)"

definition createAndAttach :: "(node \<Rightarrow> nat) \<Rightarrow> node \<Rightarrow> nat \<Rightarrow> renderCtx \<Rightarrow> renderCtx" where
  \<comment> \<open>the tail of \<open>syncNode\<close>: create, set the metadata, register, add to the parent\<close>
  "createAndAttach drawn node parent st =
     (case createDisplayObject drawn node st of
        (None, st1) \<Rightarrow> st1
      | (Some ob, st1) \<Rightarrow>
          st1\<lparr>rc_nodeMap := (rc_nodeMap st1)(nid node \<mapsto> oid ob),
              rc_stage := addChild parent (DObj (oid ob) (Some (nodeMeta node)) (kids ob))
                            (rc_stage st1)\<rparr>)"

definition staleIds :: "string list \<Rightarrow> dobj list \<Rightarrow> string list" where
  \<comment> \<open>\<open>toRemove\<close>: the ids of the container's children that the group no longer lists,
      collected from the last child to the first\<close>
  "staleIds childIds ks =
     concat (map (\<lambda>k. case meta k of
                        None \<Rightarrow> []
                      | Some mt \<Rightarrow> if m_nodeId mt \<in> set childIds then [] else [m_nodeId mt])
                 (rev ks))"

fun syncNode :: "(node \<Rightarrow> nat) \<Rightarrow> node \<Rightarrow> nat \<Rightarrow> renderCtx \<Rightarrow> renderCtx"
  and syncChildren :: "(node \<Rightarrow> nat) \<Rightarrow> node list \<Rightarrow> nat \<Rightarrow> nat \<Rightarrow> renderCtx \<Rightarrow> renderCtx" where
  "syncNode drawn (Node f cs) parent st =
     (case getObj st (n_id f) of
        None \<Rightarrow> createAndAttach drawn (Node f cs) parent st
      | Some existing \<Rightarrow>
          if (case meta existing of
                None \<Rightarrow> False
              | Some mt \<Rightarrow> m_snapshot mt = nodeSnapshot (Node f cs) \<and> n_type f \<noteq> ''group'')
          then st
          else if (case meta existing of None \<Rightarrow> False | Some mt \<Rightarrow> m_nodeType mt \<noteq> n_type f)
          then createAndAttach drawn (Node f cs) parent
                 (removeDisplayObject existing (n_id f) st)
          else if n_type f = ''group''
          then (let st1 = st\<lparr>rc_stage := setMeta (oid existing) (nodeMeta (Node f cs)) (rc_stage st)\<rparr>;
                    st2 = foldl (\<lambda>s i. removeById i s) st1
                            (staleIds (map nid cs) (kids existing))
                in syncChildren drawn cs 0 (oid existing) st2)
          else createAndAttach drawn (Node f cs) parent
                 (removeDisplayObject existing (n_id f) st))"
| "syncChildren drawn [] i container st = st"
| "syncChildren drawn (c # cs) i container st =
     syncChildren drawn cs (Suc i) container
       (ensureOrder (nid c) i container (syncNode drawn c container st))"

definition syncGroupChildren :: "(node \<Rightarrow> nat) \<Rightarrow> node \<Rightarrow> nat \<Rightarrow> renderCtx \<Rightarrow> renderCtx" where
  "syncGroupChildren drawn groupNode container st =
     (let cont = findObj (rc_stage st) container;
          st1 = foldl (\<lambda>s i. removeById i s) st
                  (staleIds (map nid (children groupNode))
                     (case cont of None \<Rightarrow> [] | Some c \<Rightarrow> kids c))
      in syncChildren drawn (children groupNode) 0 container st1)"

text \<open>One reconciliation pass of a document: \<open>syncScene\<close> syncs the root group into the root
  container.\<close>

definition syncScene :: "(node \<Rightarrow> nat) \<Rightarrow> node \<Rightarrow> renderCtx \<Rightarrow> renderCtx" where
  "syncScene drawn rt st = syncGroupChildren drawn rt (oid (rc_stage st)) st"

definition initialCtx :: renderCtx where
  \<comment> \<open>a new root container and an empty map\<close>
  "initialCtx = \<lparr>rc_stage = DObj 0 None [], rc_nodeMap = Map.empty, rc_next = 1,
     rc_created = 0, rc_destroyed = 0\<rparr>"

subsection \<open>A render context that mirrors a document\<close>

text \<open>
  \<open>allObjs\<close> lists the objects of a tree and \<open>objIds\<close> their identities. \<open>mirrors nm n ob\<close>
  says that \<open>ob\<close> is the display object of the node \<open>n\<close>: it carries the metadata of \<open>n\<close>, the
  map \<open>nm\<close> sends the id of \<open>n\<close> to it, and below a group the children of the object are the
  objects of the children of the node, in order. A node is \<open>renderable\<close> when
  \<open>createDisplayObject\<close> knows its variant tag.
\<close>

fun allObjs :: "dobj \<Rightarrow> dobj list" where
  "allObjs (DObj o1 m ks) = DObj o1 m ks # concat (map allObjs ks)"

definition objIds :: "dobj \<Rightarrow> nat list" where
  "objIds ob = map oid (allObjs ob)"

fun mirrors :: "(string \<rightharpoonup> nat) \<Rightarrow> node \<Rightarrow> dobj \<Rightarrow> bool"
  and mirrorsList :: "(string \<rightharpoonup> nat) \<Rightarrow> node list \<Rightarrow> dobj list \<Rightarrow> bool" where
  "mirrors nm (Node f cs) ob =
     (meta ob = Some (nodeMeta (Node f cs)) \<and> nm (n_id f) = Some (oid ob)
      \<and> (if n_type f = ''group'' then mirrorsList nm cs (kids ob)
          else list_all (\<lambda>k. meta k = None \<and> kids k = []) (kids ob)))"
| "mirrorsList nm [] ks = (ks = [])"
| "mirrorsList nm (c # cs) ks =
     (case ks of [] \<Rightarrow> False | k # ks1 \<Rightarrow> mirrors nm c k \<and> mirrorsList nm cs ks1)"

definition renderable :: "node \<Rightarrow> bool" where
  "renderable n = (n_type (own n) \<in> set (''group'' # ''tilemap'' # ''particles'' # leafTypes))"

text \<open>
  \<open>freshIn lo hi xs\<close>: the identities \<open>xs\<close> are pairwise distinct and lie in \<open>[lo, hi)\<close>.
  \<open>createdOk st st1 ids\<close>: from \<open>st\<close> to \<open>st1\<close> nothing was attached or destroyed, and the map
  changed at the given ids only.
\<close>

definition freshIn :: "nat \<Rightarrow> nat \<Rightarrow> nat list \<Rightarrow> bool" where
  "freshIn lo hi xs = (distinct xs \<and> (\<forall>o1 \<in> set xs. lo \<le> o1 \<and> o1 < hi))"

definition createdOk :: "renderCtx \<Rightarrow> renderCtx \<Rightarrow> string list \<Rightarrow> bool" where
  "createdOk st st1 ids =
     (rc_stage st1 = rc_stage st \<and> rc_destroyed st1 = rc_destroyed st \<and> rc_next st \<le> rc_next st1
      \<and> (\<forall>j. j \<notin> set ids \<longrightarrow> rc_nodeMap st1 j = rc_nodeMap st j))"

subsection \<open>A node that moves from one group to another\<close>

text \<open>
  Two documents with the same nodes: in \<open>docBefore\<close> the rectangle \<open>x\<close> is a child of the second
  group \<open>g1\<close>, in \<open>docMoved\<close> it is a child of the first group \<open>g2\<close>. \<open>renderedBefore\<close> is the
  render context after \<open>docBefore\<close> was reconciled into a new root container; \<open>firstPass\<close> and
  \<open>secondPass\<close> are the contexts after \<open>docMoved\<close> was reconciled once and twice from there.
\<close>

definition docBefore :: node where
  "docBefore = plainNode ''root'' ''group'' None
     [plainNode ''g2'' ''group'' None [],
      plainNode ''g1'' ''group'' None [plainNode ''x'' ''rect'' None []]]"

definition docMoved :: node where
  "docMoved = plainNode ''root'' ''group'' None
     [plainNode ''g2'' ''group'' None [plainNode ''x'' ''rect'' None []],
      plainNode ''g1'' ''group'' None []]"

definition renderedBefore :: renderCtx where
  "renderedBefore = syncScene (\<lambda>n. 0) docBefore initialCtx"

definition firstPass :: renderCtx where
  "firstPass = syncScene (\<lambda>n. 0) docMoved renderedBefore"

definition secondPass :: renderCtx where
  "secondPass = syncScene (\<lambda>n. 0) docMoved firstPass"

section \<open>Properties of the tween evaluator\<close>


lemma easing_linear [simp]: "easingFunctions ''linear'' = Some (curve ease_linear)"
  by (simp add: easingFunctions_def easingTable_def)

lemma easing_ease_in_out [simp]: "easingFunctions ''ease-in-out'' = Some (curve ease_in_out)"
  by (simp add: easingFunctions_def easingTable_def)




lemma js_rem_2_zero_iff: "(js_rem r 2 = 0) = (\<exists>k::int. r = 2 * of_int k)"
proof
  assume "js_rem r 2 = 0"
  then have "r = 2 * of_int (js_trunc (r / 2))" by (simp add: js_rem_def)
  then show "\<exists>k::int. r = 2 * of_int k" by blast
next
  assume "\<exists>k::int. r = 2 * of_int k"
  then obtain k :: int where k: "r = 2 * of_int k" by blast
  then have "r / 2 = of_int k" by simp
  then have "js_trunc (r / 2) = k" by (simp add: js_trunc_def)
  with k show "js_rem r 2 = 0" by (simp add: js_rem_def)
qed




text \<open>
  Claim C9. For a tween with \<open>startedAt\<close> set, \<open>duration > 0\<close> and \<open>repeat \<ge> 0\<close>: whenever
  \<open>floor ((now - startedAt - delay) / duration) > repeat\<close>, the tween is complete and the result is
  \<open>to\<close>, except when yoyo is true and \<open>repeat\<close> is even, where it is \<open>from\<close>.
\<close>

theorem interpolateTween_complete:
  assumes s: "tw_startedAt tw = Some s"
    and d: "0 < tw_duration tw"
    and r: "0 \<le> orElse (tw_repeat tw) 0"
    and i: "orElse (tw_repeat tw) 0 < of_int \<lfloor>(now - s - orElse (tw_delay tw) 0) / tw_duration tw\<rfloor>"
  shows "interpolateTween tw now =
     Inr (Some (Number (if tw_yoyo tw = Some True \<and> (\<exists>k::int. orElse (tw_repeat tw) 0 = 2 * of_int k)
           then tw_from tw else tw_to tw)))"
proof -
  define e where "e = now - s - orElse (tw_delay tw) 0"
  have "0 < real_of_int \<lfloor>e / tw_duration tw\<rfloor>" using r i unfolding e_def by linarith
  then have "0 < \<lfloor>e / tw_duration tw\<rfloor>" by simp
  then have "1 \<le> e / tw_duration tw" by linarith
  then have "tw_duration tw \<le> e" using d by (simp add: le_divide_eq)
  then have e0: "\<not> e < 0" using d by simp
  show ?thesis using s d r i e0 unfolding e_def
    by (auto simp add: interpolateTween_def Let_def js_rem_2_zero_iff)
qed

lemma interpolateTween_easing_cong:
  assumes "orElse (easingFunctions (orElse a ''ease-in-out'')) (curve ease_linear)
         = orElse (easingFunctions (orElse b ''ease-in-out'')) (curve ease_linear)"
  shows "interpolateTween (tw\<lparr>tw_easing := a\<rparr>) now = interpolateTween (tw\<lparr>tw_easing := b\<rparr>) now"
  by (cases "tw_startedAt tw")
     (simp_all add: interpolateTween_def Let_def assms cong: if_cong split: applied.splits)

text \<open>
  The two fallbacks of the easing lookup. When the easing name is absent the value is computed
  with the ease-in-out curve; when the name is neither a key of the easing table nor a member of
  \<open>Object.prototype\<close> the value is computed with the linear curve.
\<close>

lemma interpolateTween_easing_fallback:
  "interpolateTween (tw\<lparr>tw_easing := None\<rparr>) now
     = interpolateTween (tw\<lparr>tw_easing := Some ''ease-in-out''\<rparr>) now
   \<and> (easingFunctions e = None \<longrightarrow>
        interpolateTween (tw\<lparr>tw_easing := Some e\<rparr>) now
          = interpolateTween (tw\<lparr>tw_easing := Some ''linear''\<rparr>) now)"
proof -
  have a: "interpolateTween (tw\<lparr>tw_easing := None\<rparr>) now
     = interpolateTween (tw\<lparr>tw_easing := Some ''ease-in-out''\<rparr>) now"
    by (rule interpolateTween_easing_cong) (simp add: orElse_def)
  have b: "interpolateTween (tw\<lparr>tw_easing := Some e\<rparr>) now
          = interpolateTween (tw\<lparr>tw_easing := Some ''linear''\<rparr>) now"
    if "easingFunctions e = None"
    by (rule interpolateTween_easing_cong) (simp add: orElse_def that)
  show ?thesis using a b by simp
qed

text \<open>
  The name \<open>bogus\<close> is found nowhere. A quarter of the way through, the tween with this name
  is at 1/4, the linear value, where the ease-in-out curve gives 1/16: a name that is not found
  does not select ease-in-out.
\<close>

lemma interpolateTween_unknown_easing_is_linear:
  "easingFunctions ''bogus'' = None
   \<and> interpolateTween \<lparr>tw_from = 0, tw_to = 1, tw_duration = 4, tw_easing = Some ''bogus'',
       tw_delay = None, tw_repeat = None, tw_yoyo = None, tw_startedAt = Some 0\<rparr> 1
     = Inr (Some (Number (1 / 4)))
   \<and> interpolateTween \<lparr>tw_from = 0, tw_to = 1, tw_duration = 4, tw_easing = Some ''ease-in-out'',
       tw_delay = None, tw_repeat = None, tw_yoyo = None, tw_startedAt = Some 0\<rparr> 1
     = Inr (Some (Number (1 / 16)))"
  by (simp add: interpolateTween_def Let_def orElse_def js_rem_def js_trunc_def clamp01_def
      ease_linear_def ease_in_out_def easingFunctions_def easingTable_def objectPrototype_def
      curve_def)

text \<open>
  The members of \<open>Object.prototype\<close> as easing names, a quarter of the way through a tween from
  0 to 1: \<open>constructor\<close> acts as the linear curve, \<open>isPrototypeOf\<close> as the constant 0,
  \<open>toString\<close> makes the value NaN, and \<open>valueOf\<close> and \<open>__proto__\<close> raise.
\<close>

lemma interpolateTween_inherited_easing:
  "interpolateTween \<lparr>tw_from = 0, tw_to = 1, tw_duration = 4, tw_easing = Some ''constructor'',
       tw_delay = None, tw_repeat = None, tw_yoyo = None, tw_startedAt = Some 0\<rparr> 1
     = Inr (Some (Number (1 / 4)))
   \<and> interpolateTween \<lparr>tw_from = 0, tw_to = 1, tw_duration = 4, tw_easing = Some ''isPrototypeOf'',
       tw_delay = None, tw_repeat = None, tw_yoyo = None, tw_startedAt = Some 0\<rparr> 1
     = Inr (Some (Number 0))
   \<and> interpolateTween \<lparr>tw_from = 0, tw_to = 1, tw_duration = 4, tw_easing = Some ''toString'',
       tw_delay = None, tw_repeat = None, tw_yoyo = None, tw_startedAt = Some 0\<rparr> 1
     = Inr (Some NaN)
   \<and> interpolateTween \<lparr>tw_from = 0, tw_to = 1, tw_duration = 4, tw_easing = Some ''valueOf'',
       tw_delay = None, tw_repeat = None, tw_yoyo = None, tw_startedAt = Some 0\<rparr> 1
     = Inl TypeError
   \<and> interpolateTween \<lparr>tw_from = 0, tw_to = 1, tw_duration = 4, tw_easing = Some ''__proto__'',
       tw_delay = None, tw_repeat = None, tw_yoyo = None, tw_startedAt = Some 0\<rparr> 1
     = Inl TypeError"
  by (simp add: interpolateTween_def Let_def orElse_def js_rem_def js_trunc_def clamp01_def
      easingFunctions_def easingTable_def objectPrototype_def)

text \<open>
  Claim C8. The claim says that with \<open>startedAt\<close> set and \<open>duration > 0\<close>, an easing name
  that is not one of the named curves makes \<open>interpolateTween\<close> compute the value with the
  ease-in-out curve, and that it never raises. The name \<open>hasOwnProperty\<close> is not one of the
  named curves, but the lookup in the plain object finds the member of \<open>Object.prototype\<close>, so
  neither fallback applies, and the call of that member raises a \<open>TypeError\<close>: the tween
  from 0 to 1 over 4 ms, started at 0 and evaluated at 1, raises, where the same tween with the
  name \<open>ease-in-out\<close> is at 1/16.
\<close>

theorem interpolateTween_hasOwnProperty_raises:
  "map_of easingTable ''hasOwnProperty'' = None
   \<and> easingFunctions ''hasOwnProperty'' \<noteq> None
   \<and> interpolateTween \<lparr>tw_from = 0, tw_to = 1, tw_duration = 4, tw_easing = Some ''hasOwnProperty'',
       tw_delay = None, tw_repeat = None, tw_yoyo = None, tw_startedAt = Some 0\<rparr> 1
     = Inl TypeError
   \<and> interpolateTween \<lparr>tw_from = 0, tw_to = 1, tw_duration = 4, tw_easing = Some ''ease-in-out'',
       tw_delay = None, tw_repeat = None, tw_yoyo = None, tw_startedAt = Some 0\<rparr> 1
     = Inr (Some (Number (1 / 16)))"
  by (simp add: interpolateTween_def Let_def orElse_def js_rem_def js_trunc_def clamp01_def
      ease_in_out_def easingFunctions_def easingTable_def objectPrototype_def curve_def)

theorem interpolateTween_complete_witness:
  "interpolateTween \<lparr>tw_from = 0, tw_to = 1, tw_duration = 4, tw_easing = None,
       tw_delay = None, tw_repeat = Some 2, tw_yoyo = Some True, tw_startedAt = Some 0\<rparr> 13
     = Inr (Some (Number 0))"
proof -
  have e: "\<exists>k::int. (2::real) = 2 * of_int k" by (rule exI[of _ 1]) simp
  show ?thesis
    using e interpolateTween_complete[of "\<lparr>tw_from = 0, tw_to = 1, tw_duration = 4,
       tw_easing = None, tw_delay = None, tw_repeat = Some 2, tw_yoyo = Some True,
       tw_startedAt = Some 0\<rparr>" 0 13]
    by (simp add: orElse_def)
qed

section \<open>Properties of the selector matcher\<close>

lemma split_at_colon:
  assumes "CHR '':'' \<in> set s"
  shows "s = takeWhile (\<lambda>c. c \<noteq> CHR '':'') s @ CHR '':'' # tl (dropWhile (\<lambda>c. c \<noteq> CHR '':'') s)"
proof -
  have "dropWhile (\<lambda>c. c \<noteq> CHR '':'') s \<noteq> []" using assms by (simp add: dropWhile_eq_Nil_conv)
  moreover have "hd (dropWhile (\<lambda>c. c \<noteq> CHR '':'') s) = CHR '':''"
    using calculation hd_dropWhile[of "\<lambda>c. c \<noteq> CHR '':''" s] by blast
  ultimately have "dropWhile (\<lambda>c. c \<noteq> CHR '':'') s = CHR '':'' # tl (dropWhile (\<lambda>c. c \<noteq> CHR '':'') s)"
    by (cases "dropWhile (\<lambda>c. c \<noteq> CHR '':'') s") simp_all
  then show ?thesis using takeWhile_dropWhile_id[of "\<lambda>c. c \<noteq> CHR '':''" s] by metis
qed

lemma colon_prefix_unique:
  assumes "CHR '':'' \<notin> set p"
  shows "takeWhile (\<lambda>c. c \<noteq> CHR '':'') (p @ CHR '':'' # v) = p"
    and "tl (dropWhile (\<lambda>c. c \<noteq> CHR '':'') (p @ CHR '':'' # v)) = v"
proof -
  have a: "\<And>x. x \<in> set p \<Longrightarrow> x \<noteq> CHR '':''" using assms by blast
  show "takeWhile (\<lambda>c. c \<noteq> CHR '':'') (p @ CHR '':'' # v) = p"
    using a by (simp add: takeWhile_append2)
  show "tl (dropWhile (\<lambda>c. c \<noteq> CHR '':'') (p @ CHR '':'' # v)) = v"
    using a by (simp add: dropWhile_append2)
qed

lemma prefix_iff:
  assumes c: "CHR '':'' \<in> set s" and p: "CHR '':'' \<notin> set p"
  shows "(\<exists>v. s = p @ CHR '':'' # v \<and> Q v)
       = (takeWhile (\<lambda>c. c \<noteq> CHR '':'') s = p \<and> Q (tl (dropWhile (\<lambda>c. c \<noteq> CHR '':'') s)))"
proof
  assume "\<exists>v. s = p @ CHR '':'' # v \<and> Q v"
  then obtain v where "s = p @ CHR '':'' # v" "Q v" by blast
  then show "takeWhile (\<lambda>c. c \<noteq> CHR '':'') s = p \<and> Q (tl (dropWhile (\<lambda>c. c \<noteq> CHR '':'') s))"
    using colon_prefix_unique[OF p, of v] by simp
next
  assume "takeWhile (\<lambda>c. c \<noteq> CHR '':'') s = p \<and> Q (tl (dropWhile (\<lambda>c. c \<noteq> CHR '':'') s))"
  then show "\<exists>v. s = p @ CHR '':'' # v \<and> Q v"
    using split_at_colon[OF c] by metis
qed

lemma selectorGrammar_no_colon:
  assumes "CHR '':'' \<notin> set s" "s \<noteq> ''*''"
  shows "\<not> selectorGrammar node s"
  using assms by (auto simp: selectorGrammar_def)

text \<open>
  Claim C5, as amended. For every node and selector, \<open>nodeMatchesSelector\<close> is the grammar
  applied to the selector with the white space and line terminators at its two ends removed, as
  \<open>String.prototype.trim\<close> does: \<open>*\<close> matches iff \<open>data.entityType\<close> is truthy (neither
  absent, null, false, 0 nor the empty string); \<open>entityType:v\<close> matches iff
  \<open>data.entityType\<close> is the string \<open>v\<close>; \<open>tag:v\<close> matches iff \<open>data.tags\<close> is an array
  that contains the string \<open>v\<close>; \<open>name:v\<close> matches iff the name is \<open>v\<close>; \<open>type:v\<close> matches
  iff the variant tag is \<open>v\<close>; every other string matches nothing. The function is total: it
  never throws.
\<close>

theorem nodeMatchesSelector_grammar: "nodeMatchesSelector node selector = selectorGrammar node (trim selector)"
proof -
  define s where "s = trim selector"
  show ?thesis
  proof (cases "s = ''*''")
    case True
    then show ?thesis by (simp add: nodeMatchesSelector_def selectorGrammar_def s_def[symmetric])
  next
    case star: False
    show ?thesis
    proof (cases "CHR '':'' \<in> set s")
      case False
      then show ?thesis using star selectorGrammar_no_colon[of s node]
        by (simp add: nodeMatchesSelector_def s_def[symmetric])
    next
      case True
      let ?p = "takeWhile (\<lambda>c. c \<noteq> CHR '':'') s"
      let ?v = "tl (dropWhile (\<lambda>c. c \<noteq> CHR '':'') s)"
      have e: "(\<exists>v. s = ''entityType:'' @ v \<and> obj_get (n_data (own node)) ''entityType'' = Some (JStr v))
            = (?p = ''entityType'' \<and> obj_get (n_data (own node)) ''entityType'' = Some (JStr ?v))"
        using prefix_iff[OF True, of "''entityType''" "\<lambda>v. obj_get (n_data (own node)) ''entityType'' = Some (JStr v)"]
        by simp
      have t: "(\<exists>v tags. s = ''tag:'' @ v \<and> obj_get (n_data (own node)) ''tags'' = Some (JArr tags) \<and> JStr v \<in> set tags)
            = (?p = ''tag'' \<and> (\<exists>tags. obj_get (n_data (own node)) ''tags'' = Some (JArr tags) \<and> JStr ?v \<in> set tags))"
        using prefix_iff[OF True, of "''tag''" "\<lambda>v. \<exists>tags. obj_get (n_data (own node)) ''tags'' = Some (JArr tags) \<and> JStr v \<in> set tags"]
        by simp
      have n: "(\<exists>v. s = ''name:'' @ v \<and> n_name (own node) = Some v)
            = (?p = ''name'' \<and> n_name (own node) = Some ?v)"
        using prefix_iff[OF True, of "''name''" "\<lambda>v. n_name (own node) = Some v"] by simp
      have y: "(\<exists>v. s = ''type:'' @ v \<and> n_type (own node) = v)
            = (?p = ''type'' \<and> n_type (own node) = ?v)"
        using prefix_iff[OF True, of "''type''" "\<lambda>v. n_type (own node) = v"] by simp
      have tg: "(case obj_get (n_data (own node)) ''tags'' of Some (JArr tags) \<Rightarrow> JStr ?v \<in> set tags | _ \<Rightarrow> False)
            = (\<exists>tags. obj_get (n_data (own node)) ''tags'' = Some (JArr tags) \<and> JStr ?v \<in> set tags)"
        by (auto split: option.splits json.splits)
      have g: "selectorGrammar node s =
           ((?p = ''entityType'' \<and> obj_get (n_data (own node)) ''entityType'' = Some (JStr ?v))
          \<or> (?p = ''tag'' \<and> (\<exists>tags. obj_get (n_data (own node)) ''tags'' = Some (JArr tags) \<and> JStr ?v \<in> set tags))
          \<or> (?p = ''name'' \<and> n_name (own node) = Some ?v)
          \<or> (?p = ''type'' \<and> n_type (own node) = ?v))"
        unfolding selectorGrammar_def using star e t n y by simp
      show ?thesis
        unfolding g s_def[symmetric]
        using star True tg
        by (auto simp add: nodeMatchesSelector_def Let_def s_def[symmetric])
    qed
  qed
qed

text \<open>
  A node whose \<open>data.entityType\<close> is the empty string carries a non-null entity type, and
  \<open>*\<close> does not match it. The selector \<open>" *"\<close> has no colon and is not \<open>"*"\<close>, and it matches.
\<close>

theorem nodeMatchesSelector_star_counterexample:
  "obj_get (n_data (own (plainNode ''n1'' ''rect'' (Some [(''entityType'', JStr '''')]) []))) ''entityType''
      = Some (JStr '''')
   \<and> \<not> nodeMatchesSelector (plainNode ''n1'' ''rect'' (Some [(''entityType'', JStr '''')]) []) ''*''
   \<and> '' *'' \<noteq> ''*'' \<and> CHR '':'' \<notin> set '' *''
   \<and> nodeMatchesSelector (plainNode ''n2'' ''rect'' (Some [(''entityType'', JStr ''fish'')]) []) '' *''"
  by (simp add: nodeMatchesSelector_def plainNode_def obj_get_def trim_def is_space_def
      whiteSpace_def)


text \<open>
  A no-break space before \<open>*\<close> is trimmed like a space.
\<close>

lemma nodeMatchesSelector_no_break_space:
  "nodeMatchesSelector (plainNode ''n2'' ''rect'' (Some [(''entityType'', JStr ''fish'')]) [])
     [CHR 0xA0, CHR ''*'']"
  by (simp add: nodeMatchesSelector_def plainNode_def obj_get_def trim_def is_space_def
      whiteSpace_def)
section \<open>Properties of the remove operation\<close>

lemma walkList_append [simp]: "walkList (xs @ ys) = walkList xs @ walkList ys"
  by (induction xs) simp_all

lemma listIds_Nil [simp]: "listIds [] = []"
  by (simp add: listIds_def)

lemma listIds_Cons [simp]:
  "listIds (c # cs) = nid c # (if isGroup c then descIds c else []) @ listIds cs"
  by (cases c) (simp add: listIds_def descIds_def)

lemma listIds_append [simp]: "listIds (xs @ ys) = listIds xs @ listIds ys"
  by (simp add: listIds_def)

lemma descIds_Node [simp]: "descIds (Node f cs) = listIds cs"
  by (simp add: descIds_def)

lemma allNodeIds_group: "isGroup n \<Longrightarrow> allNodeIds n = nid n # descIds n"
  by (cases n) (simp add: allNodeIds_def descIds_def listIds_def)

lemma walkNodes_ids: "map nid (walkNodes c) = nid c # (if isGroup c then descIds c else [])"
  by (cases c) (simp add: descIds_def listIds_def)

lemma child_id_in_listIds: "c \<in> set cs \<Longrightarrow> nid c \<in> set (listIds cs)"
  by (induction cs) auto

lemma own_removeNode [simp]: "own (snd (removeNode n i)) = own n"
  by (cases n) (simp add: case_prod_beta)

lemma own_prune [simp]: "own (prune S n) = own n"
  by (cases n) simp

lemma removeNode_found:
  "fst (removeNode n i) = (i \<in> set (descIds n))"
  "fst (removeDeep cs i) = (\<exists>c \<in> set cs. isGroup c \<and> i \<in> set (descIds c))"
proof (induction n i and cs i rule: removeNode_removeDeep.induct)
  case (1 f cs i)
  have l: "(i \<in> set (listIds cs)) = ((\<exists>c \<in> set cs. nid c = i) \<or> (\<exists>c \<in> set cs. isGroup c \<and> i \<in> set (descIds c)))"
    by (induction cs) auto
  show ?case
  proof (cases "\<exists>c \<in> set cs. n_id (own c) = i")
    case True
    then show ?thesis using l by simp
  next
    case False
    then show ?thesis using 1 l by (simp add: case_prod_beta)
  qed
next
  case (2 i)
  then show ?case by simp
next
  case (3 c cs i)
  then show ?case by (auto simp: case_prod_beta)
qed

lemma removeNode_absent:
  "i \<notin> set (descIds n) \<Longrightarrow> snd (removeNode n i) = n"
  "i \<notin> set (listIds cs) \<Longrightarrow> snd (removeDeep cs i) = cs"
proof (induction n i and cs i rule: removeNode_removeDeep.induct)
  case (1 f cs i)
  then have "\<not> (\<exists>c \<in> set cs. n_id (own c) = i)" using child_id_in_listIds by fastforce
  then show ?case using 1 by (simp add: case_prod_beta)
next
  case (2 i)
  then show ?case by simp
next
  case (3 c cs i)
  then show ?case by (auto simp: removeNode_found case_prod_beta split: if_splits)
qed

lemma prune_absent:
  "S \<inter> set (descIds n) = {} \<Longrightarrow> prune S n = n"
  "S \<inter> set (listIds cs) = {} \<Longrightarrow> pruneList S cs = cs"
proof (induction S n and S cs rule: prune_pruneList.induct)
  case (1 S f cs)
  then show ?case by simp
next
  case (2 S)
  then show ?case by simp
next
  case (3 S c cs)
  then show ?case by (auto simp: Int_Un_distrib split: if_splits)
qed

lemma removeFirst_prune:
  "distinct (listIds cs) \<Longrightarrow> \<exists>c \<in> set cs. nid c = i \<Longrightarrow> removeFirst i cs = pruneList {i} cs"
proof (induction cs)
  case Nil
  then show ?case by simp
next
  case (Cons c cs)
  show ?case
  proof (cases "nid c = i")
    case True
    then have "i \<notin> set (listIds cs)" using Cons.prems(1) by auto
    then have "pruneList {i} cs = cs" by (intro prune_absent(2)) simp
    then show ?thesis using True by simp
  next
    case False
    then have ex: "\<exists>c \<in> set cs. nid c = i" using Cons.prems(2) by simp
    then have "i \<in> set (listIds cs)" using child_id_in_listIds by blast
    then have "isGroup c \<Longrightarrow> i \<notin> set (descIds c)" using Cons.prems(1) by auto
    then have pc: "isGroup c \<Longrightarrow> prune {i} c = c" by (intro prune_absent(1)) simp
    have "distinct (listIds cs)" using Cons.prems(1) by simp
    then have "removeFirst i cs = pruneList {i} cs" using Cons.IH ex by blast
    then show ?thesis using False pc by simp
  qed
qed

lemma removeNode_prune:
  "distinct (descIds n) \<Longrightarrow> snd (removeNode n i) = prune {i} n"
  "distinct (listIds cs) \<Longrightarrow> \<forall>c \<in> set cs. nid c \<noteq> i \<Longrightarrow> snd (removeDeep cs i) = pruneList {i} cs"
proof (induction n i and cs i rule: removeNode_removeDeep.induct)
  case (1 f cs i)
  show ?case
  proof (cases "\<exists>c \<in> set cs. n_id (own c) = i")
    case True
    then show ?thesis using 1 removeFirst_prune[of cs i] by simp
  next
    case False
    then show ?thesis using 1 by (simp add: case_prod_beta)
  qed
next
  case (2 i)
  then show ?case by simp
next
  case (3 c cs i)
  have dc: "distinct (descIds c)" if "isGroup c" using "3.prems"(1) that by simp
  have dcs: "distinct (listIds cs)" using "3.prems"(1) by simp
  have ne: "nid c \<noteq> i" and nes: "\<forall>c \<in> set cs. nid c \<noteq> i" using "3.prems"(2) by simp_all
  show ?case
  proof (cases "isGroup c \<and> fst (removeNode c i)")
    case True
    then have "i \<in> set (descIds c)" by (simp add: removeNode_found)
    then have "i \<notin> set (listIds cs)" using "3.prems"(1) True by auto
    then have "pruneList {i} cs = cs" by (intro prune_absent(2)) simp
    moreover have "snd (removeNode c i) = prune {i} c" using "3.IH"(1) True dc by simp
    ultimately show ?thesis using True ne by simp
  next
    case False
    then have "isGroup c \<Longrightarrow> i \<notin> set (descIds c)" by (simp add: removeNode_found)
    then have pc: "isGroup c \<Longrightarrow> prune {i} c = c" by (intro prune_absent(1)) simp
    have "snd (removeDeep cs i) = pruneList {i} cs" using "3.IH"(3)[OF False dcs nes] .
    then show ?thesis using False ne pc by (auto simp: case_prod_beta)
  qed
qed

lemma prune_ids_subset:
  "set (descIds (prune S n)) \<subseteq> set (descIds n) - S"
  "set (listIds (pruneList S cs)) \<subseteq> set (listIds cs) - S"
proof (induction S n and S cs rule: prune_pruneList.induct)
  case (1 S f cs)
  then show ?case by simp
next
  case (2 S)
  then show ?case by simp
next
  case (3 S c cs)
  then show ?case by auto
qed

lemma prune_distinct:
  "distinct (descIds n) \<Longrightarrow> distinct (descIds (prune S n))"
  "distinct (listIds cs) \<Longrightarrow> distinct (listIds (pruneList S cs))"
proof (induction S n and S cs rule: prune_pruneList.induct)
  case (1 S f cs)
  then show ?case by simp
next
  case (2 S)
  then show ?case by simp
next
  case (3 S c cs)
  then show ?case using prune_ids_subset(1)[of S c] prune_ids_subset(2)[of S cs]
    by (auto split: if_splits)
qed

lemma prune_prune:
  "prune S1 (prune S2 n) = prune (S1 \<union> S2) n"
  "pruneList S1 (pruneList S2 cs) = pruneList (S1 \<union> S2) cs"
  by (induction S2 n and S2 cs rule: prune_pruneList.induct) auto

lemma prune_empty: "prune {} n = n"
  by (rule prune_absent(1)) simp

lemma removeAll_prune:
  "distinct (descIds n) \<Longrightarrow> removeAll n ids = prune (set ids) n"
proof (induction ids arbitrary: n)
  case Nil
  then show ?case by (simp add: removeAll_def prune_empty)
next
  case (Cons i ids)
  have "removeAll n (i # ids) = removeAll (snd (removeNode n i)) ids" by (simp add: removeAll_def)
  also have "\<dots> = removeAll (prune {i} n) ids" using Cons.prems by (simp add: removeNode_prune)
  also have "\<dots> = prune (set ids) (prune {i} n)" using Cons.prems by (intro Cons.IH prune_distinct)
  also have "\<dots> = prune (set (i # ids)) n" by (simp add: prune_prune Un_commute)
  finally show ?case .
qed

lemma removeLoop_removeAll: "fst (removeLoop n removed ids) = removeAll n ids"
  by (induction n removed ids rule: removeLoop.induct)
     (auto simp: removeAll_def split: prod.splits bool.splits)

lemma walk_trans:
  "n \<in> set (walkNodes c) \<Longrightarrow> set (walkNodes n) \<subseteq> set (walkNodes c)"
  "n \<in> set (walkList cs) \<Longrightarrow> set (walkNodes n) \<subseteq> set (walkList cs)"
proof (induction c and cs rule: walkNodes_walkList.induct)
  case (1 f cs)
  then show ?case by (auto split: if_splits)
next
  case 2
  then show ?case by simp
next
  case (3 c cs)
  then show ?case by auto
qed

lemma in_walkList_ids: "m \<in> set (walkList cs) \<Longrightarrow> nid m \<in> set (listIds cs)"
  by (simp add: listIds_def)

lemma in_walkNodes_ids:
  "m \<in> set (walkNodes c) \<Longrightarrow> nid m = nid c \<or> (isGroup c \<and> nid m \<in> set (descIds c))"
  by (cases c) (auto simp: descIds_def listIds_def split: if_splits)

lemma prune_drops_subtree:
  "distinct (descIds c) \<Longrightarrow> n \<in> set (walkList (children c)) \<Longrightarrow> nid n \<in> S
     \<Longrightarrow> m \<in> set (walkNodes n) \<Longrightarrow> nid m \<notin> set (descIds (prune S c))"
  "distinct (listIds cs) \<Longrightarrow> n \<in> set (walkList cs) \<Longrightarrow> nid n \<in> S
     \<Longrightarrow> m \<in> set (walkNodes n) \<Longrightarrow> nid m \<notin> set (listIds (pruneList S cs))"
proof (induction S c and S cs arbitrary: n m and n m rule: prune_pruneList.induct)
  case (1 S f cs)
  then show ?case by simp
next
  case (2 S)
  then show ?case by simp
next
  case (3 S c cs)
  have dcs: "distinct (listIds cs)" using "3.prems"(1) by simp
  have sub: "set (listIds (pruneList S cs)) \<subseteq> set (listIds cs)"
    using prune_ids_subset(2)[of S cs] by blast
  have subc: "set (descIds (prune S c)) \<subseteq> set (descIds c)"
    using prune_ids_subset(1)[of S c] by blast
  from "3.prems"(2) have "n \<in> set (walkNodes c) \<or> n \<in> set (walkList cs)" by simp
  then show ?case
  proof
    assume nc: "n \<in> set (walkNodes c)"
    then have mc: "m \<in> set (walkNodes c)" using walk_trans(1) "3.prems"(4) by blast
    then have mid: "nid m = nid c \<or> (isGroup c \<and> nid m \<in> set (descIds c))"
      by (rule in_walkNodes_ids)
    then have notcs: "nid m \<notin> set (listIds cs)" using "3.prems"(1) by (auto split: if_splits)
    show ?thesis
    proof (cases "nid c \<in> S")
      case True
      then show ?thesis using notcs sub by auto
    next
      case False
      then have "n \<noteq> c" using "3.prems"(3) by blast
      then have g: "isGroup c" and nin: "n \<in> set (walkList (children c))"
        using nc by (cases c; auto split: if_splits)+
      have dc: "distinct (descIds c)" using "3.prems"(1) g by simp
      have "set (walkNodes n) \<subseteq> set (walkList (children c))" using walk_trans(2)[OF nin] .
      then have "nid m \<in> set (descIds c)" using "3.prems"(4) in_walkList_ids
        by (auto simp: descIds_def)
      then have ne: "nid m \<noteq> nid c" using "3.prems"(1) g by auto
      have "nid m \<notin> set (descIds (prune S c))"
        using "3.IH"(2)[OF False g dc nin "3.prems"(3) "3.prems"(4)] .
      then show ?thesis using False g ne notcs sub by auto
    qed
  next
    assume ncs: "n \<in> set (walkList cs)"
    then have "m \<in> set (walkList cs)" using walk_trans(2) "3.prems"(4) by blast
    then have mid: "nid m \<in> set (listIds cs)" by (rule in_walkList_ids)
    then have a: "nid m \<noteq> nid c" and b: "isGroup c \<Longrightarrow> nid m \<notin> set (descIds c)"
      using "3.prems"(1) by (auto split: if_splits)
    show ?thesis
    proof (cases "nid c \<in> S")
      case True
      then show ?thesis using "3.IH"(1)[OF True dcs ncs "3.prems"(3) "3.prems"(4)] by simp
    next
      case False
      have "nid m \<notin> set (listIds (pruneList S cs))"
        using "3.IH"(3)[OF False dcs ncs "3.prems"(3) "3.prems"(4)] .
      then show ?thesis using False a b subc by auto
    qed
  qed
qed

text \<open>
  Claim C10. For every scene whose root is a group and whose node ids are pairwise distinct,
  and every list of node ids: after the remove operation no listed id occurs below the root,
  no node of the subtree of a listed node is reachable from the root any more (so removing a
  group \<open>a\<close> that contains \<open>b\<close> leaves neither \<open>a\<close> nor \<open>b\<close>), and ids that are absent from the
  tree change nothing; nothing is added: the new tree is the old one pruned of the listed nodes.
  With \<open>clear: true\<close> the root has no children left.
\<close>

theorem sceneRemove_removes_subtrees:
  assumes g: "isGroup (sg_root (getScene ctx))"
      and d: "distinct (allNodeIds (sg_root (getScene ctx)))"
  shows "\<exists>scene1. ctx_scene (fst (sceneRemove ctx inp)) = Some scene1 \<and>
     (rm_clear inp = Some True \<longrightarrow> children (sg_root scene1) = [])
   \<and> (rm_clear inp \<noteq> Some True \<longrightarrow>
        (\<forall>i \<in> set (orElse (rm_nodeIds inp) []). i \<notin> set (descIds (sg_root scene1)))
      \<and> (\<forall>n \<in> set (walkList (children (sg_root (getScene ctx)))).
            nid n \<in> set (orElse (rm_nodeIds inp) []) \<longrightarrow>
            (\<forall>m \<in> set (walkNodes n). nid m \<notin> set (allNodeIds (sg_root scene1))))
      \<and> (set (orElse (rm_nodeIds inp) []) \<inter> set (descIds (sg_root (getScene ctx))) = {}
            \<longrightarrow> sg_root scene1 = sg_root (getScene ctx))
      \<and> set (allNodeIds (sg_root scene1)) \<subseteq> set (allNodeIds (sg_root (getScene ctx)))
      \<and> sg_root scene1 = prune (set (orElse (rm_nodeIds inp) [])) (sg_root (getScene ctx)))"
proof (cases "rm_clear inp = Some True")
  case True
  then show ?thesis by (simp add: sceneRemove_def Let_def)
next
  case False
  define rt where "rt = sg_root (getScene ctx)"
  define ids where "ids = orElse (rm_nodeIds inp) []"
  define rt1 where "rt1 = prune (set ids) rt"
  have ids_rt: "allNodeIds rt = nid rt # descIds rt" using g by (simp add: rt_def allNodeIds_group)
  have dd: "distinct (descIds rt)" and rn: "nid rt \<notin> set (descIds rt)"
    using d ids_rt by (simp_all add: rt_def)
  have g1: "isGroup rt1" using g by (simp add: rt1_def rt_def)
  have ids_rt1: "allNodeIds rt1 = nid rt # descIds rt1"
    using g1 by (simp add: allNodeIds_group rt1_def)
  have res: "fst (removeLoop rt [] ids) = rt1"
    using dd by (simp add: removeLoop_removeAll removeAll_prune rt1_def)
  have sc: "ctx_scene (fst (sceneRemove ctx inp)) = Some ((getScene ctx)\<lparr>sg_root := rt1\<rparr>)"
    using False res by (simp add: sceneRemove_def Let_def case_prod_beta rt_def ids_def)
  have sub: "set (descIds rt1) \<subseteq> set (descIds rt) - set ids"
    unfolding rt1_def by (rule prune_ids_subset(1))
  have p1: "\<forall>i \<in> set ids. i \<notin> set (descIds rt1)" using sub by blast
  have p2: "nid m \<notin> set (allNodeIds rt1)"
    if n: "n \<in> set (walkList (children rt))" and s: "nid n \<in> set ids" and m: "m \<in> set (walkNodes n)"
    for n m
  proof -
    have "nid m \<notin> set (descIds rt1)"
      unfolding rt1_def using prune_drops_subtree(1)[OF dd n s m] .
    moreover have "m \<in> set (walkList (children rt))" using walk_trans(2)[OF n] m by blast
    then have "nid m \<in> set (descIds rt)" by (simp add: descIds_def listIds_def)
    then have "nid m \<noteq> nid rt" using rn by auto
    ultimately show ?thesis by (simp add: ids_rt1)
  qed
  have p3: "set ids \<inter> set (descIds rt) = {} \<longrightarrow> rt1 = rt"
    unfolding rt1_def using prune_absent(1) by blast
  have p4: "set (allNodeIds rt1) \<subseteq> set (allNodeIds rt)" using sub by (auto simp: ids_rt ids_rt1)
  show ?thesis
    using False sc p1 p2 p3 p4 by (simp add: rt_def[symmetric] ids_def[symmetric] rt1_def)
qed

theorem sceneRemove_removes_subtrees_witness:
  "\<exists>scene1.
     ctx_scene (fst (sceneRemove \<lparr>ctx_scene = Some sceneAB, ctx_timestamp = 0, ctx_uid = (\<lambda>k. ''u'')\<rparr>
                      \<lparr>rm_nodeIds = Some [''a''], rm_clear = None\<rparr>)) = Some scene1
     \<and> ''a'' \<notin> set (allNodeIds (sg_root scene1)) \<and> ''b'' \<notin> set (allNodeIds (sg_root scene1))"
proof -
  let ?ctx = "\<lparr>ctx_scene = Some sceneAB, ctx_timestamp = 0, ctx_uid = (\<lambda>k. ''u'')\<rparr>"
  let ?inp = "\<lparr>rm_nodeIds = Some [''a''], rm_clear = None\<rparr>"
  let ?a = "plainNode ''a'' ''group'' None [plainNode ''b'' ''rect'' None []]"
  let ?b = "plainNode ''b'' ''rect'' None []"
  have gs: "getScene ?ctx = sceneAB" by (simp add: getScene_def orElse_def)
  have g: "isGroup (sg_root (getScene ?ctx))"
    unfolding gs by (simp add: sceneAB_def plainNode_def)
  have d: "distinct (allNodeIds (sg_root (getScene ?ctx)))"
    unfolding gs by (simp add: sceneAB_def plainNode_def allNodeIds_def)
  have ina: "?a \<in> set (walkList (children (sg_root (getScene ?ctx))))"
    unfolding gs by (simp add: sceneAB_def plainNode_def)
  have aa: "?a \<in> set (walkNodes ?a)" and ba: "?b \<in> set (walkNodes ?a)"
    by (simp_all add: plainNode_def)
  have ida: "nid ?a = ''a''" and idb: "nid ?b = ''b''" by (simp_all add: plainNode_def)
  from sceneRemove_removes_subtrees[OF g d, of ?inp]
  obtain scene1 where s: "ctx_scene (fst (sceneRemove ?ctx ?inp)) = Some scene1"
    and p: "\<forall>n \<in> set (walkList (children (sg_root (getScene ?ctx)))).
            nid n \<in> set (orElse (rm_nodeIds ?inp) []) \<longrightarrow>
            (\<forall>m \<in> set (walkNodes n). nid m \<notin> set (allNodeIds (sg_root scene1)))"
    by auto
  have "\<forall>m \<in> set (walkNodes ?a). nid m \<notin> set (allNodeIds (sg_root scene1))"
    using p ina ida by (simp add: orElse_def)
  then have "''a'' \<notin> set (allNodeIds (sg_root scene1))" "''b'' \<notin> set (allNodeIds (sg_root scene1))"
    using aa ba ida idb by metis+
  then show ?thesis using s by blast
qed

section \<open>Properties of the batch operation\<close>




section \<open>Properties of the particle simulator\<close>

lemma rand_in_range:
  assumes "0 \<le> rnd k" "rnd k \<le> 1" "lo \<le> hi"
  shows "lo \<le> rand rnd k lo hi \<and> rand rnd k lo hi \<le> hi"
proof -
  have a: "0 \<le> rnd k * (hi - lo)" using assms by simp
  have "rnd k * (hi - lo) \<le> 1 * (hi - lo)" using assms by (intro mult_right_mono) simp_all
  then show ?thesis using a by (simp add: rand_def)
qed

lemma spawnOne_spawnedBy:
  assumes rnd: "\<forall>k. 0 \<le> rnd k \<and> rnd k < 1"
      and wf: "r_min (em_speed e) \<le> r_max (em_speed e)" "r_min (em_direction e) \<le> r_max (em_direction e)"
  shows "spawnedBy e (fst (spawnOne rnd k e))"
proof -
  let ?angle = "rand rnd k (r_min (em_direction e)) (r_max (em_direction e))"
  let ?speed = "rand rnd (k + 1) (r_min (em_speed e)) (r_max (em_speed e))"
  have r: "\<And>j. 0 \<le> rnd j" "\<And>j. rnd j \<le> 1" using rnd by (simp_all add: less_imp_le)
  have a: "r_min (em_direction e) \<le> ?angle \<and> ?angle \<le> r_max (em_direction e)"
    using rand_in_range[OF r(1) r(2) wf(2)] .
  have s: "r_min (em_speed e) \<le> ?speed \<and> ?speed \<le> r_max (em_speed e)"
    using rand_in_range[OF r(1) r(2) wf(1)] .
  show ?thesis
    unfolding spawnedBy_def
    apply (rule exI[of _ ?speed], rule exI[of _ ?angle])
    using a s by (simp add: spawnOne_def Let_def degToRad_def case_prod_beta)
qed

lemma spawnLoop_props:
  assumes rnd: "\<forall>k. 0 \<le> rnd k \<and> rnd k < 1"
      and wf: "r_min (em_speed e) \<le> r_max (em_speed e)" "r_min (em_direction e) \<le> r_max (em_direction e)"
  shows "length (fst (spawnLoop rnd e n k)) = n \<and> (\<forall>p \<in> set (fst (spawnLoop rnd e n k)). spawnedBy e p)"
proof (induction n arbitrary: k)
  case 0
  then show ?case by simp
next
  case (Suc n)
  show ?case using Suc[of "snd (spawnOne rnd k e)"] spawnOne_spawnedBy[OF rnd wf, of k]
    by (simp add: case_prod_beta)
qed

lemma spawnParticles_props:
  assumes rnd: "\<forall>k. 0 \<le> rnd k \<and> rnd k < 1"
      and wf: "r_min (em_speed e) \<le> r_max (em_speed e)" "r_min (em_direction e) \<le> r_max (em_direction e)"
  shows "length (fst (spawnParticles rnd k e dt)) = nat (spawnCount e dt)
       \<and> (\<forall>p \<in> set (fst (spawnParticles rnd k e dt)). spawnedBy e p)"
  using spawnLoop_props[OF rnd wf] by (simp add: spawnParticles_def)

lemma spawnEach_props:
  assumes rnd: "\<forall>k. 0 \<le> rnd k \<and> rnd k < 1"
      and wf: "\<forall>e \<in> set es. r_min (em_speed e) \<le> r_max (em_speed e)
                 \<and> r_min (em_direction e) \<le> r_max (em_direction e)"
  shows "list_all2 (\<lambda>e ps. length ps = nat (spawnCount e dt) \<and> (\<forall>p \<in> set ps. spawnedBy e p))
           es (fst (spawnEach rnd k es dt))"
  using wf
proof (induction es arbitrary: k)
  case Nil
  then show ?case by simp
next
  case (Cons e es)
  have w: "r_min (em_speed e) \<le> r_max (em_speed e)" "r_min (em_direction e) \<le> r_max (em_direction e)"
    using Cons.prems by simp_all
  show ?case
    using Cons.IH[of "snd (spawnParticles rnd k e dt)"] Cons.prems spawnParticles_props[OF rnd w, of k dt]
    by (simp add: case_prod_beta)
qed

lemma tickParticles_survivors:
  "tickParticles ps es dt =
     map (advance (firstGravity es) dt) (filter (\<lambda>p. p_age p + dt < p_lifetime p) ps)"
  by (induction ps) (simp_all add: tickParticles_def advance_def firstGravity_def Let_def)

text \<open>
  What one tick does. Let every draw of the random source lie in \<open>[0, 1)\<close>, let every emitter
  have \<open>min \<le> max\<close> in its speed and direction ranges, and let \<open>maxParticles\<close> (200 when
  absent) be a natural number \<open>m\<close>. Then one tick of size \<open>dt\<close> keeps exactly the particles
  with \<open>age + dt < lifetime\<close>, aged by \<open>dt\<close>, advanced by their velocity and with the first
  emitter's gravity added to the vertical velocity; every emitter spawns \<open>spawnCount\<close>
  particles, each with a speed and a direction angle in the emitter's ranges; and when the total
  exceeds \<open>m\<close> the oldest particles are dropped first, so that at most \<open>m\<close> are left.
\<close>

lemma tickParticleNode_spec:
  assumes rnd: "\<forall>k. 0 \<le> rnd k \<and> rnd k < 1"
      and wf: "\<forall>e \<in> set (pn_emitters node). r_min (em_speed e) \<le> r_max (em_speed e)
                 \<and> r_min (em_direction e) \<le> r_max (em_direction e)"
      and mx: "orElse (pn_maxParticles node) 200 = real m"
  shows "\<exists>spawned.
      list_all2 (\<lambda>e ps. length ps = nat (spawnCount e dt) \<and> (\<forall>p \<in> set ps. spawnedBy e p))
        (pn_emitters node) spawned
    \<and> (let survivors = map (advance (firstGravity (pn_emitters node)) dt)
                          (filter (\<lambda>p. p_age p + dt < p_lifetime p) (orElse (pn_particles node) []));
           everything = survivors @ concat spawned
       in fst (tickParticleNode rnd k node dt) = drop (length everything - m) everything
        \<and> length (fst (tickParticleNode rnd k node dt)) \<le> m)"
proof -
  define spawned where "spawned = fst (spawnEach rnd k (pn_emitters node) dt)"
  define everything where "everything = map (advance (firstGravity (pn_emitters node)) dt)
                          (filter (\<lambda>p. p_age p + dt < p_lifetime p) (orElse (pn_particles node) []))
                        @ concat spawned"
  have a: "list_all2 (\<lambda>e ps. length ps = nat (spawnCount e dt) \<and> (\<forall>p \<in> set ps. spawnedBy e p))
        (pn_emitters node) spawned"
    unfolding spawned_def using spawnEach_props[OF rnd wf] .
  have tr: "nat (js_trunc (real (length everything) - real m)) = length everything - m"
    if "real (length everything) > real m"
  proof -
    have "real (length everything) - real m = of_int (int (length everything) - int m)" by simp
    then have "js_trunc (real (length everything) - real m) = int (length everything) - int m"
      using that unfolding js_trunc_def by (metis floor_of_int less_eq_real_def diff_ge_0_iff_ge of_nat_le_iff of_nat_less_iff nat_less_le)
    then show ?thesis by simp
  qed
  have t: "fst (tickParticleNode rnd k node dt) =
      (if real (length everything) > real m
       then drop (nat (js_trunc (real (length everything) - real m))) everything
       else everything)"
    unfolding everything_def spawned_def using mx
    by (simp add: tickParticleNode_def Let_def case_prod_beta tickParticles_survivors)
  have b: "fst (tickParticleNode rnd k node dt) = drop (length everything - m) everything"
  proof (cases "real (length everything) > real m")
    case True
    then show ?thesis using tr[OF True] t by simp
  next
    case False
    then show ?thesis using t by simp
  qed
  have c: "length (fst (tickParticleNode rnd k node dt)) \<le> m" by (simp add: b)
  show ?thesis using a b c by (auto simp: Let_def everything_def)
qed

lemma tickParticleNode_spec_witness:
  "length (fst (tickParticleNode (\<lambda>k. 0) 0
       \<lparr>pn_emitters = [\<lparr>em_x = 0, em_y = 0, em_rate = 1000, em_lifetime = 500,
                         em_speed = \<lparr>r_min = 1, r_max = 2\<rparr>,
                         em_direction = \<lparr>r_min = 0, r_max = 90\<rparr>,
                         em_gravity = None, em_color = None, em_size = None\<rparr>],
        pn_maxParticles = Some 3, pn_particles = None\<rparr> 5)) \<le> 3"
proof -
  let ?node = "\<lparr>pn_emitters = [\<lparr>em_x = 0, em_y = 0, em_rate = 1000, em_lifetime = 500,
                         em_speed = \<lparr>r_min = 1, r_max = 2\<rparr>,
                         em_direction = \<lparr>r_min = 0, r_max = 90\<rparr>,
                         em_gravity = None, em_color = None, em_size = None\<rparr>],
        pn_maxParticles = Some 3, pn_particles = None\<rparr>"
  have r: "\<forall>k. 0 \<le> (\<lambda>k::nat. 0::real) k \<and> (\<lambda>k::nat. 0::real) k < 1" by simp
  have w: "\<forall>e \<in> set (pn_emitters ?node). r_min (em_speed e) \<le> r_max (em_speed e)
                 \<and> r_min (em_direction e) \<le> r_max (em_direction e)" by simp
  have m: "orElse (pn_maxParticles ?node) 200 = real 3" by (simp add: orElse_def)
  from tickParticleNode_spec[OF r w m, of 5 0] show ?thesis by (auto simp: Let_def)
qed


lemma length_spawnLoop: "length (fst (spawnLoop rnd e n k)) = n"
  by (induction n arbitrary: k) (simp_all add: case_prod_beta)

text \<open>
  With a fractional \<open>maxParticles\<close> more particles than that are left: \<open>slice\<close> truncates
  \<open>2 - 1.5\<close> to 0, and both particles stay.
\<close>

lemma tickParticleNode_fractional_cap:
  "length (fst (tickParticleNode (\<lambda>k. 0) 0
       \<lparr>pn_emitters = [steadyEmitter\<lparr>em_rate := 1000\<rparr>],
        pn_maxParticles = Some 1.5, pn_particles = None\<rparr> 2)) = 2"
proof -
  have c: "spawnCount (steadyEmitter\<lparr>em_rate := 1000\<rparr>) 2 = 2"
    unfolding spawnCount_def steadyEmitter_def by code_simp
  have t: "js_trunc (1 / 2) = 0" by (simp add: js_trunc_def)
  show ?thesis
    by (simp add: tickParticleNode_def tickParticles_def spawnParticles_def c t orElse_def Let_def
          case_prod_beta length_spawnLoop)
qed

lemma spawnCount_steady: "spawnCount steadyEmitter 290 = 28"
  unfolding spawnCount_def steadyEmitter_def by code_simp

text \<open>
  Claim C4. The claim has every emitter spawn exactly \<open>floor (rate * dt / 1000)\<close> particles
  per tick; the specification derives from it that \<open>k\<close> particles are spawned whenever
  \<open>rate * dt / 1000\<close> is an integer \<open>k\<close>. For an emitter of 100 particles per second and a
  tick of 290 ms this number is 29. The program computes \<open>rate * (dt / 1000)\<close>: the quotient
  \<open>290 / 1000\<close> is rounded down to the nearest binary64 number, the product with 100 is rounded
  to the number just below 29, and its floor is 28. The particle system that holds only this
  emitter has 28 particles after the tick, whatever the random source.
\<close>

theorem tickParticleNode_spawns_one_less:
  "specCount steadyEmitter 290 = 29
   \<and> spawnCount steadyEmitter 290 = 28
   \<and> length (fst (spawnParticles rnd k steadyEmitter 290)) = 28
   \<and> length (fst (tickParticleNode rnd k steadyNode 290)) = 28"
proof -
  have a: "specCount steadyEmitter 290 = 29"
    by (simp add: specCount_def steadyEmitter_def)
  have b: "length (fst (spawnParticles rnd k steadyEmitter 290)) = 28" for k
    by (simp add: spawnParticles_def spawnCount_steady length_spawnLoop)
  have c: "length (fst (tickParticleNode rnd k steadyNode 290)) = 28"
    using b[of k]
    by (simp add: tickParticleNode_def tickParticles_def steadyNode_def orElse_def Let_def
          case_prod_beta)
  show ?thesis using a b c spawnCount_steady by simp
qed
section \<open>Properties of the rule engine\<close>

lemma findNodeList_None_iff:
  "(findNode n i = None) = (i \<notin> set (map nid (walkNodes n)))"
  "(findNodeList cs i = None) = (i \<notin> set (listIds cs))"
proof (induction n i and cs i rule: findNode_findNodeList.induct)
  case (1 f cs i)
  then show ?case by (auto simp: listIds_def)
next
  case (2 i)
  then show ?case by simp
next
  case (3 c cs i)
  then show ?case by (cases c) (auto simp: listIds_def descIds_def split: option.splits)
qed

lemma findNode_id:
  "findNode n i = Some x \<Longrightarrow> nid x = i"
  "findNodeList cs i = Some x \<Longrightarrow> nid x = i"
  by (induction n i and cs i rule: findNode_findNodeList.induct)
     (auto split: if_splits option.splits)

lemma replace_found:
  "fst (replaceNode n i r) = (findNodeList (children n) i \<noteq> None)"
  "fst (replaceIn cs i r) = (findNodeList cs i \<noteq> None)"
proof (induction n i r and cs i r rule: replaceNode_replaceIn.induct)
  case (1 f cs i r)
  then show ?case by (simp add: case_prod_beta)
next
  case (2 i r)
  then show ?case by simp
next
  case (3 c cs i r)
  then show ?case by (cases c) (auto simp: case_prod_beta split: option.splits)
qed

lemma ownIn_Cons:
  "ownIn (c # cs) j = (case map_option own (findNode c j) of Some f \<Rightarrow> Some f | None \<Rightarrow> ownIn cs j)"
  by (simp add: ownIn_def split: option.splits)

lemma findNode_self: "findNode c (nid c) = Some c"
  by (cases c) simp

lemma replace_shape:
  "findNodeList (children n) i = Some cur \<Longrightarrow> n_id f1 = i \<Longrightarrow> n_type f1 = n_type (own cur)
     \<Longrightarrow> r = Node f1 (children cur)
     \<Longrightarrow> descIds (snd (replaceNode n i r)) = descIds n
       \<and> (\<forall>j. ownIn (children (snd (replaceNode n i r))) j
              = (if j = i then Some f1 else ownIn (children n) j))"
  "findNodeList cs i = Some cur \<Longrightarrow> n_id f1 = i \<Longrightarrow> n_type f1 = n_type (own cur)
     \<Longrightarrow> r = Node f1 (children cur)
     \<Longrightarrow> listIds (snd (replaceIn cs i r)) = listIds cs
       \<and> (\<forall>j. ownIn (snd (replaceIn cs i r)) j
              = (if j = i then Some f1 else ownIn cs j))"
proof (induction n i r and cs i r rule: replaceNode_replaceIn.induct)
  case (1 f cs i r)
  then show ?case by (simp add: case_prod_beta)
next
  case (2 i r)
  then show ?case by simp
next
  case (3 c cs i r)
  note rr = "3.prems"(4)
  obtain fc ccs where c: "c = Node fc ccs" by (cases c)
  show ?case
  proof (cases "n_id fc = i")
    case True
    then have cur: "cur = c" using "3.prems"(1) c by simp
    then show ?thesis using True c "3.prems" by (auto simp: ownIn_def descIds_def)
  next
    case ne: False
    show ?thesis
    proof (cases "n_type fc = ''group'' \<and> findNodeList ccs i \<noteq> None")
      case True
      then have fc: "findNodeList (children c) i = Some cur" using "3.prems"(1) c ne by auto
      have g: "isGroup c" using True c by simp
      have r: "fst (replaceNode c i r)" using True c replace_found(1)[of c i r] by auto
      have nn: "n_id (own c) \<noteq> i" using ne c by simp
      note ih = "3.IH"(1)[OF nn fc "3.prems"(2) "3.prems"(3) rr]
      have o: "own (snd (replaceNode c i r)) = own c"
        using c by (simp add: case_prod_beta)
      obtain c1 where c1: "snd (replaceNode c i r) = c1" by blast
      have o1: "own c1 = own c" using o c1 by simp
      have d1: "descIds c1 = descIds c" using ih c1 by simp
      have w1: "\<forall>j. ownIn (children c1) j = (if j = i then Some f1 else ownIn (children c) j)"
        using ih c1 by simp
      have fn: "\<And>j. map_option own (findNode c1 j) =
                (if j = nid c then Some (own c) else if j = i then Some f1 else map_option own (findNode c j))"
        using w1 o1 g nn by (cases c1; cases c) (auto simp: ownIn_def)
      have res: "snd (replaceIn (c # cs) i r) = c1 # cs"
        using nn g r c1 by simp
      have some_i: "findNode c1 i \<noteq> None" using fn[of i] nn by auto
      show ?thesis
      proof (intro conjI allI)
        show "listIds (snd (replaceIn (c # cs) i r)) = listIds (c # cs)"
          using res o1 d1 by simp
      next
        fix j
        show "ownIn (snd (replaceIn (c # cs) i r)) j
            = (if j = i then Some f1 else ownIn (c # cs) j)"
          unfolding res ownIn_Cons fn using nn
          by (simp add: findNode_self)
      qed
    next
      case False
      then have nf: "findNode c i = None" using c ne by auto
      then have fcs: "findNodeList cs i = Some cur" using "3.prems"(1) by simp
      have cond: "\<not> (n_type (own c) = ''group'' \<and> fst (replaceNode c i r))"
        using False c replace_found(1)[of c i r] by auto
      have nn: "n_id (own c) \<noteq> i" using ne c by simp
      note ih = "3.IH"(3)[OF nn cond fcs "3.prems"(2) "3.prems"(3) rr]
      have res: "snd (replaceIn (c # cs) i r)
                  = c # snd (replaceIn cs i r)"
        using nn cond by (auto simp add: case_prod_beta)
      show ?thesis
      proof (intro conjI allI)
        show "listIds (snd (replaceIn (c # cs) i r)) = listIds (c # cs)"
          using res ih by simp
      next
        fix j
        have "findNode c j \<noteq> None \<Longrightarrow> j \<noteq> i" using nf by auto
        then show "ownIn (snd (replaceIn (c # cs) i r)) j
            = (if j = i then Some f1 else ownIn (c # cs) j)"
          using res ih nf by (auto simp: ownIn_def split: option.splits)
      qed
    qed
  qed
qed

lemma fish_selector: "nodeMatchesSelector m ''entityType:fish'' = isFish m"
  by (simp add: nodeMatchesSelector_def trim_def is_space_def whiteSpace_def isFish_def)

lemma checkCondition_fish:
  "checkCondition ev k (fishRule rid var) m allNodes now cds = (isFish m, k)"
  by (simp add: checkCondition_def fishRule_def fishCondition_def fish_selector Let_def)

lemma applyEffect_fish:
  "orElse var 0 = 0 \<Longrightarrow>
   applyEffect ev k (fishRule rid var) m pending = (Some (moved m), pending, k)"
  by (simp add: applyEffect_def fishRule_def noEffect_def bump_def applyVariance_def moved_def Let_def)

lemma nodeStep_fish_working:
  "orElse var 0 = 0 \<Longrightarrow>
   ts_working (nodeStep ev (fishRule rid var) allNodes now st m) = stepW (ts_working st) m"
  by (simp add: nodeStep_def checkCondition_fish applyEffect_fish stepW_def)

lemma fold_nodeStep_working:
  "orElse var 0 = 0 \<Longrightarrow>
   ts_working (foldl (nodeStep ev (fishRule rid var) allNodes now) st ms)
     = foldl stepW (ts_working st) ms"
  by (induction ms arbitrary: st) (simp_all add: nodeStep_fish_working)

lemma findNode_member:
  "distinct (map nid (walkNodes c)) \<Longrightarrow> m \<in> set (walkNodes c) \<Longrightarrow> findNode c (nid m) = Some m"
  "distinct (listIds cs) \<Longrightarrow> m \<in> set (walkList cs) \<Longrightarrow> findNodeList cs (nid m) = Some m"
proof (induction c and cs rule: walkNodes_walkList.induct)
  case (1 f cs)
  then show ?case by (auto simp: listIds_def split: if_splits)
next
  case 2
  then show ?case by simp
next
  case (3 c cs)
  have dc: "distinct (map nid (walkNodes c))" and dcs: "distinct (listIds cs)"
    and dj: "set (map nid (walkNodes c)) \<inter> set (listIds cs) = {}"
    using "3.prems"(1) by (auto simp: listIds_def)
  from "3.prems"(2) have "m \<in> set (walkNodes c) \<or> m \<in> set (walkList cs)" by simp
  then show ?case
  proof
    assume "m \<in> set (walkNodes c)"
    then show ?thesis using "3.IH"(1)[OF dc] by simp
  next
    assume mc: "m \<in> set (walkList cs)"
    then have "nid m \<in> set (listIds cs)" by (simp add: listIds_def)
    then have "nid m \<notin> set (map nid (walkNodes c))" using dj by blast
    then have "findNode c (nid m) = None" by (simp add: findNodeList_None_iff(1))
    then show ?thesis using "3.IH"(2)[OF dcs mc] by simp
  qed
qed

lemma replace_absent:
  "findNodeList (children n) i = None \<Longrightarrow> snd (replaceNode n i r) = n"
  "findNodeList cs i = None \<Longrightarrow> snd (replaceIn cs i r) = cs"
proof (induction n i r and cs i r rule: replaceNode_replaceIn.induct)
  case (1 f cs i r)
  then show ?case by (simp add: case_prod_beta)
next
  case (2 i r)
  then show ?case by simp
next
  case (3 c cs i r)
  obtain fc ccs where c: "c = Node fc ccs" by (cases c)
  have a: "n_id fc \<noteq> i" and b: "n_type fc = ''group'' \<longrightarrow> findNodeList ccs i = None"
    and d: "findNodeList cs i = None"
    using "3.prems" c by (auto split: option.splits if_splits)
  have nf: "\<not> (n_type (own c) = ''group'' \<and> fst (replaceNode c i r))"
    using b c replace_found(1)[of c i r] by auto
  have nn: "n_id (own c) \<noteq> i" using a c by simp
  show ?case using "3.IH"(3)[OF nn nf d] nn nf by (auto simp: case_prod_beta)
qed

lemma own_replaceNode [simp]: "own (snd (replaceNode n i r)) = own n"
  by (cases n) (simp add: case_prod_beta)

lemma moved_own [simp]: "n_id (own (moved m)) = nid m" "n_type (own (moved m)) = n_type (own m)"
  by (simp_all add: moved_def Let_def)

lemma stepW_below:
  assumes g: "isGroup rt" and d: "distinct (allNodeIds rt)"
      and inv: "sameShape rt w"
      and m: "m \<in> set (walkList (children rt))" and fish: "isFish m"
  shows "sameShape rt (stepW w m)
       \<and> (\<forall>j. ownIn (children (stepW w m)) j
              = (if j = nid m then Some (own (moved m)) else ownIn (children w) j))"
proof -
  have ids: "allNodeIds rt = nid rt # descIds rt" using g by (rule allNodeIds_group)
  have dd: "distinct (descIds rt)" and rn: "nid rt \<notin> set (descIds rt)" using d ids by simp_all
  have mid: "nid m \<in> set (descIds rt)" using m by (simp add: descIds_def listIds_def)
  then have mw: "nid m \<in> set (listIds (children w))" using inv by (simp add: sameShape_def descIds_def)
  then obtain cur where cur: "findNodeList (children w) (nid m) = Some cur"
    using findNodeList_None_iff(2)[of "children w" "nid m"] by (cases "findNodeList (children w) (nid m)") auto
  have ne: "nid m \<noteq> nid w" using mid rn inv by (auto simp: sameShape_def)
  have gw: "isGroup w" using g inv by (simp add: sameShape_def)
  have fw: "findNode w (nid m) = Some cur" using ne gw cur by (cases w) auto
  have sh: "shareChildren w (moved m) = Node (own (moved m)) (children cur)"
    using fw by (simp add: shareChildren_def)
  have "findNodeList (children rt) (nid m) = Some m"
    using findNode_member(2)[of "children rt" m] dd m by (simp add: descIds_def)
  then have "ownIn (children rt) (nid m) = Some (own m)" by (simp add: ownIn_def)
  moreover have "ownIn (children w) (nid m) = Some (own cur)" using cur by (simp add: ownIn_def)
  ultimately have ty: "n_type (own (moved m)) = n_type (own cur)"
    using inv by (auto simp: sameShape_def dest!: spec[of _ "nid m"])
  note rs = replace_shape(1)[OF cur moved_own(1) ty sh]
  have st: "stepW w m = snd (replaceNode w (nid m) (shareChildren w (moved m)))"
    using fish by (simp add: stepW_def)
  have o: "\<forall>j. ownIn (children (stepW w m)) j
              = (if j = nid m then Some (own (moved m)) else ownIn (children w) j)"
    using rs st by simp
  have "sameShape rt (stepW w m)"
    unfolding sameShape_def
  proof (intro conjI allI)
    show "own (stepW w m) = own rt" using st inv by (simp add: sameShape_def)
    show "descIds (stepW w m) = descIds rt" using rs st inv by (simp add: sameShape_def)
    fix j
    show "map_option n_type (ownIn (children (stepW w m)) j) = map_option n_type (ownIn (children rt) j)"
    proof (cases "j = nid m")
      case True
      then show ?thesis using o \<open>ownIn (children rt) (nid m) = Some (own m)\<close> by simp
    next
      case False
      then show ?thesis using o inv by (simp add: sameShape_def)
    qed
  qed
  then show ?thesis using o by blast
qed

lemma stepW_root:
  assumes g: "isGroup rt" and d: "distinct (allNodeIds rt)"
      and inv: "sameShape rt w" and m: "nid m = nid rt"
  shows "stepW w m = w"
proof -
  have ids: "allNodeIds rt = nid rt # descIds rt" using g by (rule allNodeIds_group)
  have "nid rt \<notin> set (descIds rt)" using d ids by simp
  then have "nid m \<notin> set (listIds (children w))" using inv m by (simp add: sameShape_def descIds_def)
  then have "findNodeList (children w) (nid m) = None" by (simp add: findNodeList_None_iff(2))
  then show ?thesis by (simp add: stepW_def replace_absent(1))
qed

lemma stepW_any:
  assumes g: "isGroup rt" and d: "distinct (allNodeIds rt)"
      and inv: "sameShape rt w" and m: "m \<in> set (walkNodes rt)"
  shows "sameShape rt (stepW w m)
       \<and> (\<forall>j. j \<noteq> nid m \<longrightarrow> ownIn (children (stepW w m)) j = ownIn (children w) j)"
proof -
  from m g have "m = rt \<or> m \<in> set (walkList (children rt))" by (cases rt) auto
  then show ?thesis
  proof
    assume "m = rt"
    then have "stepW w m = w" using stepW_root[OF g d inv] by simp
    then show ?thesis using inv by simp
  next
    assume b: "m \<in> set (walkList (children rt))"
    show ?thesis
    proof (cases "isFish m")
      case True
      then show ?thesis using stepW_below[OF g d inv b True] by simp
    next
      case False
      then show ?thesis using inv by (simp add: stepW_def)
    qed
  qed
qed

lemma fold_stepW_keep:
  assumes g: "isGroup rt" and d: "distinct (allNodeIds rt)"
  shows "sameShape rt w \<Longrightarrow> set ms \<subseteq> set (walkNodes rt) \<Longrightarrow> i \<notin> nid ` set ms
     \<Longrightarrow> sameShape rt (foldl stepW w ms)
       \<and> ownIn (children (foldl stepW w ms)) i = ownIn (children w) i"
proof (induction ms arbitrary: w)
  case Nil
  then show ?case by simp
next
  case (Cons m ms)
  have mm: "m \<in> set (walkNodes rt)" using Cons.prems(2) by simp
  note s = stepW_any[OF g d Cons.prems(1) mm]
  have ne: "i \<noteq> nid m" using Cons.prems(3) by auto
  have "sameShape rt (foldl stepW (stepW w m) ms)
       \<and> ownIn (children (foldl stepW (stepW w m) ms)) i = ownIn (children (stepW w m)) i"
    using Cons.IH[of "stepW w m"] s Cons.prems(2,3) by auto
  then show ?case using s ne by simp
qed

lemma fold_stepW_hit:
  assumes g: "isGroup rt" and d: "distinct (allNodeIds rt)"
      and n: "n \<in> set (walkList (children rt))" and fish: "isFish n"
  shows "ownIn (children (foldl stepW rt (walkNodes rt))) (nid n) = Some (own (moved n))"
proof -
  have nw: "n \<in> set (walkNodes rt)" using n g by (cases rt) auto
  then obtain pre post where sp: "walkNodes rt = pre @ n # post" by (meson split_list)
  have dist: "distinct (map nid (walkNodes rt))" using d by (simp add: allNodeIds_def)
  have npre: "nid n \<notin> nid ` set pre" and npost: "nid n \<notin> nid ` set post"
    using dist sp by auto
  have sub1: "set pre \<subseteq> set (walkNodes rt)" and sub2: "set post \<subseteq> set (walkNodes rt)"
    using sp by auto
  have inv0: "sameShape rt rt" by (simp add: sameShape_def)
  define w1 where "w1 = foldl stepW rt pre"
  have i1: "sameShape rt w1" unfolding w1_def using fold_stepW_keep[OF g d inv0 sub1 npre] by simp
  define w2 where "w2 = stepW w1 n"
  have i2: "sameShape rt w2" and h2: "ownIn (children w2) (nid n) = Some (own (moved n))"
    unfolding w2_def using stepW_below[OF g d i1 n fish] by simp_all
  have "foldl stepW rt (walkNodes rt) = foldl stepW w2 post"
    by (simp add: sp w1_def w2_def)
  then show ?thesis using fold_stepW_keep[OF g d i2 sub2 npost] h2 by simp
qed

lemma applyEffect_gate:
  "(case e_probability (r_effect r) of None \<Rightarrow> False | Some p \<Rightarrow> random ev k > p)
     \<Longrightarrow> applyEffect ev k r node pending
          = (None, pending, (case e_probability (r_effect r) of None \<Rightarrow> k | Some p \<Rightarrow> Suc k))"
  by (simp add: applyEffect_def Let_def)

lemma applyEffect_replacement:
  assumes a: "applyEffect ev k r node pending = (Some m, pending1, k1)"
  shows "nid m = nid node \<and> n_type (own m) = n_type (own node) \<and> children m = children node
     \<and> pending1 = pending"
proof (cases "case e_probability (r_effect r) of None \<Rightarrow> False | Some p \<Rightarrow> random ev k > p")
  case True
  then show ?thesis using a applyEffect_gate[OF True] by simp
next
  case False
  show ?thesis
  proof (cases "e_type (r_effect r)")
    case Transform
    then show ?thesis using a False
      by (simp add: applyEffect_def Let_def case_prod_beta split: if_splits) auto
  next
    case Style
    then show ?thesis using a False
      by (cases "e_styleUpdates (r_effect r)") (auto simp add: applyEffect_def Let_def)
  next
    case Data
    then show ?thesis using a False
      by (cases "e_dataUpdates (r_effect r)") (auto simp add: applyEffect_def Let_def)
  next
    case Counter
    then show ?thesis using a False
      by (cases "e_field (r_effect r)"; cases "e_delta (r_effect r)")
         (auto simp add: applyEffect_def Let_def case_prod_beta split: if_splits)
  next
    case Spawn
    then show ?thesis using a False
      by (cases "e_spawnNode (r_effect r)") (auto simp add: applyEffect_def Let_def)
  next
    case Remove
    then show ?thesis using a False by (auto simp add: applyEffect_def Let_def)
  next
    case TweenEff
    then show ?thesis using a False
      by (cases "e_tween (r_effect r)") (auto simp add: applyEffect_def Let_def)
  qed
qed

text \<open>
  The tick below the root. For every document whose root is a group and whose node ids are
  pairwise distinct, and every node below the root with \<open>data.entityType = "fish"\<close> and
  \<open>transform.x = 0\<close>: one tick of the rule \<open>{selector: "entityType:fish", effect: {type:
  "transform", dx: 2}}\<close> with variance 0 leaves \<open>transform.x = 2\<close> at that node.
\<close>

lemma ruleTick_moves_fish:
  assumes g: "isGroup rt" and d: "distinct (allNodeIds rt)"
      and n: "n \<in> set (walkList (children rt))"
      and fish: "obj_get (n_data (own n)) ''entityType'' = Some (JStr ''fish'')"
      and tr: "n_transform (own n) = Some t" and x0: "t_x t = Some 0"
      and v: "orElse variance 0 = 0"
  shows "\<exists>n1 t1. findNode (ts_working (ruleTick ev k [fishRule rid variance] now rt cds)) (nid n) = Some n1
            \<and> n_transform (own n1) = Some t1 \<and> t_x t1 = Some 2"
proof -
  have f: "isFish n" using fish by (simp add: isFish_def)
  have tk: "tickRules [fishRule rid variance] = [fishRule rid variance]"
    by (simp add: tickRules_def fishRule_def)
  have w: "ts_working (ruleTick ev k [fishRule rid variance] now rt cds) = foldl stepW rt (walkNodes rt)"
    by (simp add: ruleTick_def tk ruleStep_def Let_def collectNodes_def fold_nodeStep_working[OF v])
  define wf where "wf = foldl stepW rt (walkNodes rt)"
  have h: "ownIn (children wf) (nid n) = Some (own (moved n))"
    unfolding wf_def using fold_stepW_hit[OF g d n f] .
  have sub: "set (walkNodes rt) \<subseteq> set (walkNodes rt)" by simp
  have ids: "allNodeIds rt = nid rt # descIds rt" using g by (rule allNodeIds_group)
  have rn: "nid rt \<notin> set (descIds rt)" using d ids by simp
  have "nid n \<in> set (descIds rt)" using n by (simp add: descIds_def listIds_def)
  then have ne: "nid n \<noteq> nid rt" using rn by auto
  have inv0: "sameShape rt rt" by (simp add: sameShape_def)
  have "\<And>ms w0. sameShape rt w0 \<Longrightarrow> set ms \<subseteq> set (walkNodes rt) \<Longrightarrow> sameShape rt (foldl stepW w0 ms)"
  proof -
    fix ms w0 show "sameShape rt w0 \<Longrightarrow> set ms \<subseteq> set (walkNodes rt) \<Longrightarrow> sameShape rt (foldl stepW w0 ms)"
    proof (induction ms arbitrary: w0)
      case Nil
      then show ?case by simp
    next
      case (Cons a ms)
      then show ?case using stepW_any[OF g d Cons.prems(1), of a] by simp
    qed
  qed
  then have inv: "sameShape rt wf" unfolding wf_def using inv0 sub by blast
  then have ow: "own wf = own rt" by (simp add: sameShape_def)
  obtain n1 where n1: "findNodeList (children wf) (nid n) = Some n1" and o1: "own n1 = own (moved n)"
    using h by (auto simp: ownIn_def)
  have fn: "findNode wf (nid n) = Some n1"
    using n1 ne ow g by (cases wf) auto
  have "n_transform (own (moved n)) = Some (t\<lparr>t_x := Some 2\<rparr>)"
    using tr x0 by (simp add: moved_def orElse_def)
  then have "n_transform (own n1) = Some (t\<lparr>t_x := Some 2\<rparr>) \<and> t_x (t\<lparr>t_x := Some 2\<rparr>) = Some 2"
    using o1 by simp
  then show ?thesis
    using fn w wf_def by auto
qed

lemma fishRule_sel [simp]:
  "r_id (fishRule rid var) = rid"
  "e_type (r_effect (fishRule rid var)) = Transform"
  "tickRules [fishRule rid var] = [fishRule rid var]"
  by (simp_all add: fishRule_def noEffect_def tickRules_def)

lemma nodeStep_fish:
  "orElse var 0 = 0 \<Longrightarrow>
   nodeStep ev (fishRule rid var) allNodes now st m =
     (if isFish m
      then st\<lparr>ts_working := stepW (ts_working st) m,
              ts_stats := (ts_stats st)\<lparr>nodesAffected := Suc (nodesAffected (ts_stats st))\<rparr>,
              ts_fired := True,
              ts_cooldowns := (ts_cooldowns st)(rid \<mapsto>
                         (orElse (ts_cooldowns st rid) Map.empty)(nid m \<mapsto> now))\<rparr>
      else st)"
  by (simp add: nodeStep_def checkCondition_fish applyEffect_fish stepW_def)

text \<open>
  Claim C1. The claim says that one tick of the rule \<open>{selector: "entityType:fish", effect:
  {type: "transform", dx: 2}}\<close> with variance 0 leaves \<open>transform.x = 2\<close> at the node with
  \<open>data.entityType = "fish"\<close> and \<open>transform.x = 0\<close>, for every document that contains one
  such node. In the document \<open>fishRoot\<close> that node is the root. The tick collects the root
  with the other nodes, the rule matches it and \<open>applyEffect\<close> builds the replacement, but
  \<open>replaceNode\<close> only substitutes among the children of groups and its result is not used:
  the document after the tick is the document before it, with \<open>transform.x = 0\<close> at the
  root, although the node is counted as affected, the rule as fired, and the cooldown of the
  root is set to the time of the tick.
\<close>

theorem ruleTick_root_fish_stays:
  "isFish fishRoot
   \<and> n_transform (own fishRoot) = Some (empty_transform\<lparr>t_x := Some 0\<rparr>)
   \<and> ts_working (ruleTick testEnv 0 [fishRule ''fish-swim'' (Some 0)] 100 fishRoot noCooldowns) = fishRoot
   \<and> n_transform (own (ts_working (ruleTick testEnv 0 [fishRule ''fish-swim'' (Some 0)] 100 fishRoot noCooldowns)))
       = Some (empty_transform\<lparr>t_x := Some 0\<rparr>)
   \<and> nodesAffected (ts_stats (ruleTick testEnv 0 [fishRule ''fish-swim'' (Some 0)] 100 fishRoot noCooldowns)) = 1
   \<and> rulesFired (ts_stats (ruleTick testEnv 0 [fishRule ''fish-swim'' (Some 0)] 100 fishRoot noCooldowns)) = 1
   \<and> orElse (ts_cooldowns (ruleTick testEnv 0 [fishRule ''fish-swim'' (Some 0)] 100 fishRoot noCooldowns)
         ''fish-swim'') Map.empty ''root'' = Some 100"
proof -
  have f: "isFish fishRoot" by (simp add: isFish_def fishRoot_def fishFields_def obj_get_def)
  have t: "n_transform (own fishRoot) = Some (empty_transform\<lparr>t_x := Some 0\<rparr>)"
    by (simp add: fishRoot_def fishFields_def)
  have w: "walkNodes fishRoot = [fishRoot]" by (simp add: fishRoot_def fishFields_def)
  have v: "orElse (Some (0::real)) 0 = 0" by (simp add: orElse_def)
  have s: "stepW fishRoot fishRoot = fishRoot"
    by (simp add: stepW_def fishRoot_def)
  have i: "nid fishRoot = ''root''" by (simp add: fishRoot_def fishFields_def)
  show ?thesis
    using f t
    by (simp add: ruleTick_def ruleStep_def Let_def collectNodes_def w nodeStep_fish[OF v] s i
          noCooldowns_def orElse_def)
qed

lemma ruleTick_moves_fish_witness:
  "\<exists>n1 t1. findNode (ts_working (ruleTick testEnv 0 [fishRule ''fish-swim'' (Some 0)] 100 fishPond noCooldowns)) ''f1''
              = Some n1
          \<and> n_transform (own n1) = Some t1 \<and> t_x t1 = Some 2"
proof -
  let ?n = "Node (fishFields ''f1'' ''circle'') []"
  have g: "isGroup fishPond" by (simp add: fishPond_def plainNode_def)
  have d: "distinct (allNodeIds fishPond)"
    by (simp add: fishPond_def plainNode_def allNodeIds_def fishFields_def)
  have n: "?n \<in> set (walkList (children fishPond))" by (simp add: fishPond_def plainNode_def)
  have fish: "obj_get (n_data (own ?n)) ''entityType'' = Some (JStr ''fish'')"
    by (simp add: fishFields_def obj_get_def)
  have tr: "n_transform (own ?n) = Some (empty_transform\<lparr>t_x := Some 0\<rparr>)"
    by (simp add: fishFields_def)
  have x0: "t_x (empty_transform\<lparr>t_x := Some 0\<rparr>) = Some 0" by simp
  have v: "orElse (Some (0::real)) 0 = 0" by (simp add: orElse_def)
  have i: "nid ?n = ''f1''" by (simp add: fishFields_def)
  from ruleTick_moves_fish[OF g d n fish tr x0 v, of testEnv 0 "''fish-swim''" 100 noCooldowns]
  show ?thesis unfolding i by blast
qed

lemma spawnRule_sel [simp]:
  "r_id (spawnRule rid c tpl) = rid"
  "e_type (r_effect (spawnRule rid c tpl)) = Spawn"
  "tickRules [spawnRule rid c tpl] = [spawnRule rid c tpl]"
  by (simp_all add: spawnRule_def noEffect_def tickRules_def)

lemma checkCondition_spawn:
  "checkCondition ev k (spawnRule rid c tpl) m allNodes now cds =
     (isFish m \<and> \<not> (c \<noteq> 0 \<and> now - (case cds rid of None \<Rightarrow> 0 | Some pm \<Rightarrow> orElse (pm (nid m)) 0) < c), k)"
  by (simp add: checkCondition_def spawnRule_def fishCondition_def fish_selector Let_def)

lemma applyEffect_spawn:
  "applyEffect ev k (spawnRule rid c tpl) m pending = (None, pending @ [PSpawn tpl (nodePos m)], k)"
  by (simp add: applyEffect_def spawnRule_def noEffect_def Let_def)

lemma nodeStep_spawn:
  "nodeStep ev (spawnRule rid c tpl) allNodes now st m =
     (if isFish m \<and> \<not> (c \<noteq> 0 \<and> now - (case ts_cooldowns st rid of None \<Rightarrow> 0
                                                  | Some pm \<Rightarrow> orElse (pm (nid m)) 0) < c)
      then st\<lparr>ts_pending := ts_pending st @ [PSpawn tpl (nodePos m)], ts_fired := True\<rparr>
      else st)"
  by (simp add: nodeStep_def checkCondition_spawn applyEffect_spawn)

lemma fishPond_nodes:
  "walkNodes fishPond = [fishPond, Node (fishFields ''f1'' ''circle'') []]"
  "\<not> isFish fishPond" "isFish (Node (fishFields ''f1'' ''circle'') [])"
  "nodePos (Node (fishFields ''f1'' ''circle'') []) = \<lparr>v_x = 0, v_y = 0\<rparr>"
  by (simp_all add: fishPond_def plainNode_def fishFields_def isFish_def obj_get_def nodePos_def
        orElse_def empty_transform_def)

text \<open>
  Claim C7 at a spawn rule with \<open>cooldownMs = 1000\<close> and one fish. The tick at time 5000
  queues the spawn and leaves the cooldown map of the rule without an entry for the fish; the
  tick at time 5100, run with the cooldown map that the first tick left, queues the spawn
  again.
\<close>

theorem spawn_ignores_cooldown:
  "ts_pending (ruleTick testEnv 0 [spawnRule ''spawner'' 1000 [(''type'', JStr ''circle'')]] 5000 fishPond noCooldowns)
      = [PSpawn [(''type'', JStr ''circle'')] \<lparr>v_x = 0, v_y = 0\<rparr>]
   \<and> ts_cooldowns (ruleTick testEnv 0 [spawnRule ''spawner'' 1000 [(''type'', JStr ''circle'')]] 5000 fishPond noCooldowns)
        ''spawner'' = Some Map.empty
   \<and> ts_pending (ruleTick testEnv 0 [spawnRule ''spawner'' 1000 [(''type'', JStr ''circle'')]] 5100 fishPond
        (ts_cooldowns (ruleTick testEnv 0 [spawnRule ''spawner'' 1000 [(''type'', JStr ''circle'')]] 5000
           fishPond noCooldowns)))
      = [PSpawn [(''type'', JStr ''circle'')] \<lparr>v_x = 0, v_y = 0\<rparr>]"
  by (simp add: ruleTick_def ruleStep_def Let_def collectNodes_def nodeStep_spawn fishPond_nodes
        orElse_def noCooldowns_def)

lemma applyEffect_structural:
  assumes "e_type (r_effect r) = Spawn \<or> e_type (r_effect r) = Remove"
  shows "fst (applyEffect ev k r node pending) = None"
proof (cases "case e_probability (r_effect r) of None \<Rightarrow> False | Some p \<Rightarrow> random ev k > p")
  case True
  then show ?thesis using applyEffect_gate[OF True] by simp
next
  case False
  from assms show ?thesis
  proof
    assume "e_type (r_effect r) = Spawn"
    then show ?thesis using False
      by (cases "e_spawnNode (r_effect r)") (auto simp add: applyEffect_def Let_def)
  next
    assume "e_type (r_effect r) = Remove"
    then show ?thesis using False by (auto simp add: applyEffect_def Let_def)
  qed
qed

lemma structural_effect_keeps_cooldowns:
  assumes "e_type (r_effect r) = Spawn \<or> e_type (r_effect r) = Remove"
  shows "ts_cooldowns (nodeStep ev r allNodes now st m) = ts_cooldowns st"
proof -
  obtain ok k1 where c: "checkCondition ev (ts_rand st) r m allNodes now (ts_cooldowns st) = (ok, k1)"
    by (cases "checkCondition ev (ts_rand st) r m allNodes now (ts_cooldowns st)")
  obtain md p1 k2 where a: "applyEffect ev k1 r m (ts_pending st) = (md, p1, k2)"
    by (cases "applyEffect ev k1 r m (ts_pending st)")
  have "md = None" using applyEffect_structural[OF assms, of ev k1 m "ts_pending st"] a by simp
  then show ?thesis using c a assms by (auto simp: nodeStep_def)
qed

lemma checkCondition_cooling:
  assumes "c_cooldownMs (r_condition r) = Some ms" and "ms \<noteq> 0"
      and "cds (r_id r) = Some pm" and "pm (nid m) = Some fired_at" and "now - fired_at < ms"
  shows "fst (checkCondition ev k r m allNodes now cds) = False"
  using assms by (simp add: checkCondition_def Let_def orElse_def)

lemma replacement_sets_cooldown:
  assumes "checkCondition ev (ts_rand st) r m allNodes now (ts_cooldowns st) = (True, k1)"
      and "applyEffect ev k1 r m (ts_pending st) = (Some md, p1, k2)"
  shows "\<exists>pm. ts_cooldowns (nodeStep ev r allNodes now st m) (r_id r) = Some pm \<and> pm (nid m) = Some now"
  using assms by (simp add: nodeStep_def)

section \<open>Properties of the reconciler\<close>

lemma objIds_simps [simp]: "objIds (DObj o1 m ks) = o1 # concat (map objIds ks)"
  by (simp add: objIds_def[abs_def] map_concat comp_def)

lemma findObj_None_iff:
  "(findObj s i = None) = (i \<notin> set (objIds s))"
  "(findObjList ks i = None) = (i \<notin> set (concat (map objIds ks)))"
  by (induction s i and ks i rule: findObj_findObjList.induct) (auto split: option.splits)

lemma self_in_allObjs [simp]: "ob \<in> set (allObjs ob)"
  by (cases ob) simp

lemma oid_in_objIds [simp]: "oid ob \<in> set (objIds ob)"
  by (cases ob) simp

lemma allObjs_ids: "x \<in> set (allObjs s) \<Longrightarrow> oid x \<in> set (objIds s)"
  by (simp add: objIds_def)

lemma findObj_member:
  "distinct (objIds s) \<Longrightarrow> ob \<in> set (allObjs s) \<Longrightarrow> findObj s (oid ob) = Some ob"
  "distinct (concat (map objIds ks)) \<Longrightarrow> ob \<in> set (concat (map allObjs ks))
     \<Longrightarrow> findObjList ks (oid ob) = Some ob"
proof (induction s "oid ob" and ks "oid ob" rule: findObj_findObjList.induct)
  case (1 o1 m ks)
  show ?case
  proof (cases "ob = DObj o1 m ks")
    case True
    then show ?thesis by simp
  next
    case False
    then have in_ks: "ob \<in> set (concat (map allObjs ks))" using "1.prems"(2) by simp
    then have "oid ob \<in> set (concat (map objIds ks))" by (auto simp: objIds_def)
    then have ne: "o1 \<noteq> oid ob" using "1.prems"(1) by auto
    have "distinct (concat (map objIds ks))" using "1.prems"(1) by simp
    then show ?thesis using "1.hyps"[OF ne _ in_ks] ne by simp
  qed
next
  case 2
  then show ?case by simp
next
  case (3 k ks)
  have dk: "distinct (objIds k)" and dks: "distinct (concat (map objIds ks))"
    and dj: "set (objIds k) \<inter> set (concat (map objIds ks)) = {}"
    using "3.prems"(1) by auto
  from "3.prems"(2) have "ob \<in> set (allObjs k) \<or> ob \<in> set (concat (map allObjs ks))" by simp
  then show ?case
  proof
    assume "ob \<in> set (allObjs k)"
    then show ?thesis using "3.hyps"(1)[OF dk] by simp
  next
    assume a: "ob \<in> set (concat (map allObjs ks))"
    then have "oid ob \<in> set (concat (map objIds ks))" by (auto simp: objIds_def)
    then have "oid ob \<notin> set (objIds k)" using dj by blast
    then have "findObj k (oid ob) = None" by (simp add: findObj_None_iff(1))
    then show ?thesis using "3.hyps"(2)[OF _ dks a] by simp
  qed
qed

lemma findObj_in:
  "findObj s i = Some ob \<Longrightarrow> ob \<in> set (allObjs s) \<and> oid ob = i"
  "findObjList ks i = Some ob \<Longrightarrow> ob \<in> set (concat (map allObjs ks)) \<and> oid ob = i"
  by (induction s i and ks i rule: findObj_findObjList.induct)
     (auto split: option.splits if_splits)

lemma allObjs_trans: "x \<in> set (allObjs y) \<Longrightarrow> y \<in> set (allObjs s) \<Longrightarrow> x \<in> set (allObjs s)"
proof (induction s)
  case (DObj o1 m ks)
  show ?case
  proof (cases "y = DObj o1 m ks")
    case True
    then show ?thesis using DObj.prems(1) by simp
  next
    case False
    then obtain k where k: "k \<in> set ks" "y \<in> set (allObjs k)" using DObj.prems(2) by auto
    have "x \<in> set (allObjs k)" using DObj.IH[OF k(1) DObj.prems(1) k(2)] .
    then show ?thesis using k(1) by auto
  qed
qed

lemma kid_in_allObjs: "k \<in> set (kids y) \<Longrightarrow> y \<in> set (allObjs s) \<Longrightarrow> k \<in> set (allObjs s)"
proof -
  assume a: "k \<in> set (kids y)" and b: "y \<in> set (allObjs s)"
  have "k \<in> set (allObjs y)"
  proof (cases y)
    case (DObj o1 m ks)
    then have "k \<in> set ks" using a by simp
    then have "\<exists>x \<in> set ks. k \<in> set (allObjs x)" using self_in_allObjs by blast
    then show ?thesis using DObj by simp
  qed
  then show ?thesis using allObjs_trans b by blast
qed

lemma distinct_sub:
  "distinct (objIds s) \<Longrightarrow> y \<in> set (allObjs s) \<Longrightarrow> distinct (objIds y)"
proof (induction s)
  case (DObj o1 m ks)
  show ?case
  proof (cases "y = DObj o1 m ks")
    case True
    then show ?thesis using DObj.prems(1) by simp
  next
    case False
    then obtain k where k: "k \<in> set ks" "y \<in> set (allObjs k)" using DObj.prems(2) by auto
    have "distinct (concat (map objIds ks))" using DObj.prems(1) by simp
    then have "distinct (objIds k)" using k(1) by (auto simp: distinct_concat_iff)
    then show ?thesis using DObj.IH[OF k(1) _ k(2)] by simp
  qed
qed

lemma mapObj_id:
  "(\<forall>ob \<in> set (allObjs s). oid ob = i \<longrightarrow> g ob = ob) \<Longrightarrow> mapObj i g s = s"
proof (induction s)
  case (DObj o1 m ks)
  show ?case
  proof (cases "o1 = i")
    case True
    then show ?thesis using DObj.prems by simp
  next
    case False
    have "map (mapObj i g) ks = ks"
    proof (rule map_idI)
      fix k assume k: "k \<in> set ks"
      then have "\<forall>ob \<in> set (allObjs k). oid ob = i \<longrightarrow> g ob = ob" using DObj.prems by auto
      then show "mapObj i g k = k" using DObj.IH[OF k] by simp
    qed
    then show ?thesis using False by simp
  qed
qed

lemma same_oid_same_obj:
  "distinct (objIds s) \<Longrightarrow> x \<in> set (allObjs s) \<Longrightarrow> y \<in> set (allObjs s) \<Longrightarrow> oid x = oid y \<Longrightarrow> x = y"
  using findObj_member(1) by (metis option.inject)

lemma indexOfObj_at:
  "distinct (map oid (pre @ k # post)) \<Longrightarrow> indexOfObj (oid k) (pre @ k # post) = Some (length pre)"
  by (induction pre) auto

lemma staleIds_mirrored:
  "mirrorsList nm cs ks \<Longrightarrow> staleIds (map nid cs) ks = []"
proof -
  assume m: "mirrorsList nm cs ks"
  have "\<forall>k \<in> set ks. \<exists>c \<in> set cs. meta k = Some (nodeMeta c)" using m
  proof (induction cs arbitrary: ks)
    case Nil
    then show ?case by simp
  next
    case (Cons c cs)
    then obtain k ks1 where ks: "ks = k # ks1" "mirrors nm c k" "mirrorsList nm cs ks1"
      by (cases ks) auto
    have "meta k = Some (nodeMeta c)" using ks(2) by (cases c) simp
    then show ?case using Cons.IH[OF ks(3)] ks(1) by auto
  qed
  then have "\<forall>k \<in> set (rev ks).
      (case meta k of None \<Rightarrow> [] | Some mt \<Rightarrow> if m_nodeId mt \<in> set (map nid cs) then [] else [m_nodeId mt]) = []"
    by (auto simp: nodeMeta_def)
  then show ?thesis unfolding staleIds_def by (simp add: concat_eq_Nil_conv del: set_rev)
qed

lemma mirrors_meta: "mirrors nm n ob \<Longrightarrow> meta ob = Some (nodeMeta n) \<and> nm (nid n) = Some (oid ob)"
  by (cases n) simp

lemma distinct_heads:
  "distinct (concat (map objIds ks)) \<Longrightarrow> distinct (map oid ks)"
proof (induction ks)
  case Nil
  then show ?case by simp
next
  case (Cons k ks)
  have "oid k \<notin> oid ` set ks"
  proof
    assume "oid k \<in> oid ` set ks"
    then obtain k1 where k1: "k1 \<in> set ks" "oid k1 = oid k" by auto
    then have "oid k \<in> set (concat (map objIds ks))" using oid_in_objIds[of k1] by auto
    moreover have "oid k \<in> set (objIds k)" by simp
    ultimately have "oid k \<in> set (objIds k) \<inter> set (concat (map objIds ks))" by blast
    moreover have "set (objIds k) \<inter> set (concat (map objIds ks)) = {}"
      using Cons.prems by simp
    ultimately show False by blast
  qed
  then show ?case using Cons by simp
qed

lemma ensureOrder_aligned:
  assumes d: "distinct (objIds (rc_stage st))"
      and c: "findObj (rc_stage st) container = Some cont"
      and k: "kids cont = pre @ k # post" "length pre = i"
      and m: "rc_nodeMap st childId = Some (oid k)"
  shows "ensureOrder childId i container st = st"
proof -
  have cin: "cont \<in> set (allObjs (rc_stage st))" using findObj_in(1)[OF c] by simp
  have kin: "k \<in> set (allObjs (rc_stage st))" using kid_in_allObjs[OF _ cin] k(1) by simp
  have g: "getObj st childId = Some k" using m findObj_member(1)[OF d kin] by (simp add: getObj_def)
  have "distinct (objIds cont)" using distinct_sub[OF d cin] .
  then have "distinct (map oid (kids cont))"
    by (cases cont) (simp add: distinct_heads)
  then have "indexOfObj (oid k) (kids cont) = Some i"
    using indexOfObj_at[of pre k post] k by simp
  then show ?thesis using g c by (simp add: ensureOrder_def)
qed

lemma setMeta_same:
  assumes d: "distinct (objIds s)" and i: "ob \<in> set (allObjs s)" and m: "meta ob = Some mt"
  shows "setMeta (oid ob) mt s = s"
  unfolding setMeta_def
proof (rule mapObj_id, intro ballI impI)
  fix x assume x: "x \<in> set (allObjs s)" and e: "oid x = oid ob"
  have "x = ob" using same_oid_same_obj[OF d x i e] .
  then show "DObj (oid x) (Some mt) (kids x) = x" using m by (cases ob) simp
qed

lemma sync_mirrored_noop:
  "distinct (objIds (rc_stage st)) \<Longrightarrow> mirrors (rc_nodeMap st) n ob
     \<Longrightarrow> ob \<in> set (allObjs (rc_stage st)) \<Longrightarrow> syncNode drawn n parent st = st"
  "distinct (objIds (rc_stage st)) \<Longrightarrow> findObj (rc_stage st) container = Some cont
     \<Longrightarrow> kids cont = pre @ ks \<Longrightarrow> length pre = i \<Longrightarrow> mirrorsList (rc_nodeMap st) cs ks
     \<Longrightarrow> syncChildren drawn cs i container st = st"
proof (induction drawn n parent st and drawn cs i container st
       arbitrary: ob and cont pre ks rule: syncNode_syncChildren.induct)
  case (1 drawn f cs parent st)
  note d = "1.prems"(1) and mi = "1.prems"(2) and oin = "1.prems"(3)
  have mt: "meta ob = Some (nodeMeta (Node f cs))" and nm: "rc_nodeMap st (n_id f) = Some (oid ob)"
    using mi by simp_all
  have g: "getObj st (n_id f) = Some ob"
    using nm findObj_member(1)[OF d oin] by (simp add: getObj_def)
  show ?case
  proof (cases "n_type f = ''group''")
    case False
    then show ?thesis using g mt by (simp add: nodeMeta_def)
  next
    case True
    have c1: "\<not> (case meta ob of None \<Rightarrow> False
              | Some mt \<Rightarrow> m_snapshot mt = nodeSnapshot (Node f cs) \<and> n_type f \<noteq> ''group'')"
      using True mt by simp
    have c2: "\<not> (case meta ob of None \<Rightarrow> False | Some mt \<Rightarrow> m_nodeType mt \<noteq> n_type f)"
      using mt by (simp add: nodeMeta_def)
    have s1: "st\<lparr>rc_stage := setMeta (oid ob) (nodeMeta (Node f cs)) (rc_stage st)\<rparr> = st"
      using setMeta_same[OF d oin mt] by simp
    have ml: "mirrorsList (rc_nodeMap st) cs (kids ob)" using mi True by simp
    have s2: "foldl (\<lambda>s i. removeById i s) st (staleIds (map nid cs) (kids ob)) = st"
      using staleIds_mirrored[OF ml] by simp
    have fo: "findObj (rc_stage st) (oid ob) = Some ob" using findObj_member(1)[OF d oin] .
    have "syncChildren drawn cs 0 (oid ob) st = st"
      using "1.IH"[OF g c1 c2 True s1[symmetric] s2[symmetric] d fo, of "[]" "kids ob"] ml by simp
    then show ?thesis using g c1 c2 True s1 s2 by (simp add: Let_def)
  qed
next
  case (2 drawn i container st)
  then show ?case by simp
next
  case (3 drawn c cs i container st)
  note d = "3.prems"(1) and fc = "3.prems"(2) and kc = "3.prems"(3) and len = "3.prems"(4)
    and ml = "3.prems"(5)
  obtain k ks1 where ks: "ks = k # ks1" and mk: "mirrors (rc_nodeMap st) c k"
    and mr: "mirrorsList (rc_nodeMap st) cs ks1"
    using ml by (cases ks) auto
  have cin: "cont \<in> set (allObjs (rc_stage st))" using findObj_in(1)[OF fc] by simp
  have kin: "k \<in> set (allObjs (rc_stage st))" using kid_in_allObjs[OF _ cin] kc ks by simp
  have a: "syncNode drawn c container st = st" using "3.IH"(1)[OF d mk kin] .
  have kc1: "kids cont = pre @ k # ks1" using kc ks by simp
  have b: "ensureOrder (nid c) i container st = st"
    using ensureOrder_aligned[OF d fc kc1 len] mirrors_meta[OF mk] by simp
  have kc2: "kids cont = (pre @ [k]) @ ks1" using kc1 by simp
  have len2: "length (pre @ [k]) = Suc i" using len by simp
  have "syncChildren drawn cs (Suc i) container st = st"
    using "3.IH"(2)[of cont "pre @ [k]" ks1] a b d fc kc2 len2 mr by simp
  then show ?case using a b by simp
qed

lemma syncScene_mirrored:
  assumes d: "distinct (objIds (rc_stage st))"
      and m: "mirrorsList (rc_nodeMap st) (children rt) (kids (rc_stage st))"
  shows "syncScene drawn rt st = st"
proof -
  have f: "findObj (rc_stage st) (oid (rc_stage st)) = Some (rc_stage st)"
    by (cases "rc_stage st") simp
  have s: "staleIds (map nid (children rt)) (kids (rc_stage st)) = []"
    using staleIds_mirrored[OF m] .
  have "syncChildren drawn (children rt) 0 (oid (rc_stage st)) st = st"
    using sync_mirrored_noop(2)[OF d f, of "[]" "kids (rc_stage st)" 0 "children rt" drawn] m by simp
  then show ?thesis using f s by (simp add: syncScene_def syncGroupChildren_def)
qed

lemma mirrors_cong:
  "(\<forall>j \<in> set (map nid (walkNodes n)). nm1 j = nm j) \<Longrightarrow> mirrors nm1 n ob = mirrors nm n ob"
  "(\<forall>j \<in> set (listIds cs). nm1 j = nm j) \<Longrightarrow> mirrorsList nm1 cs ks = mirrorsList nm cs ks"
proof (induction nm n ob and nm cs ks rule: mirrors_mirrorsList.induct)
  case (1 nm f cs ob)
  then show ?case by (auto simp: listIds_def)
next
  case (2 nm ks)
  then show ?case by simp
next
  case (3 nm c cs ks)
  show ?case
  proof (cases ks)
    case Nil
    then show ?thesis by simp
  next
    case (Cons k ks1)
    have a: "\<forall>j \<in> set (map nid (walkNodes c)). nm1 j = nm j"
      using "3.prems" by (simp add: walkNodes_ids)
    have b: "\<forall>j \<in> set (listIds cs). nm1 j = nm j" using "3.prems" by simp
    show ?thesis using "3.IH"(1)[OF Cons a] "3.IH"(2)[OF Cons b] Cons by simp
  qed
qed

lemma drawn_ids:
  "concat (map objIds (map (\<lambda>j. DObj (b + j) None []) [0..<n])) = map (\<lambda>j. b + j) [0..<n]"
  by (induction n) simp_all

lemma freshIn_drawn: "freshIn b (b + n) (map (\<lambda>j. b + j) [0..<n])"
  by (auto simp: freshIn_def distinct_map inj_on_def)

lemma freshIn_Cons: "o1 < lo \<Longrightarrow> lo \<le> hi \<Longrightarrow> freshIn lo hi xs \<Longrightarrow> l \<le> o1 \<Longrightarrow> freshIn l hi (o1 # xs)"
  by (auto simp: freshIn_def)

lemma freshIn_append:
  "freshIn lo mid xs \<Longrightarrow> freshIn mid hi ys \<Longrightarrow> lo \<le> mid \<Longrightarrow> mid \<le> hi \<Longrightarrow> freshIn lo hi (xs @ ys)"
  by (fastforce simp: freshIn_def)

lemma create_props:
  "(\<forall>m \<in> set (walkNodes n). renderable m) \<Longrightarrow> distinct (map nid (walkNodes n)) \<Longrightarrow>
     (\<exists>ob st1. createDisplayObject drawn n st = (Some ob, st1)
        \<and> createdOk st st1 (if isGroup n then descIds n else [])
        \<and> freshIn (rc_next st) (rc_next st1) (objIds ob)
        \<and> (if isGroup n then mirrorsList (rc_nodeMap st1) (children n) (kids ob)
            else list_all (\<lambda>k. meta k = None \<and> kids k = []) (kids ob)))"
  "(\<forall>m \<in> set (walkList cs). renderable m) \<Longrightarrow> distinct (listIds cs) \<Longrightarrow>
     (\<exists>obs st1. createKids drawn cs st = (obs, st1)
        \<and> createdOk st st1 (listIds cs)
        \<and> freshIn (rc_next st) (rc_next st1) (concat (map objIds obs))
        \<and> mirrorsList (rc_nodeMap st1) cs obs)"
proof (induction drawn n st and drawn cs st rule: createDisplayObject_createKids.induct)
  case (1 drawn f cs st)
  have r: "renderable (Node f cs)" using "1.prems"(1) by simp
  show ?case
  proof (cases "n_type f = ''group''")
    case True
    define st0 where "st0 = st\<lparr>rc_next := Suc (rc_next st), rc_created := Suc (rc_created st)\<rparr>"
    have rk: "\<forall>m \<in> set (walkList cs). renderable m" using "1.prems"(1) True by simp
    have dk: "distinct (listIds cs)" using "1.prems"(2) True by (simp add: listIds_def)
    obtain obs st1 where c: "createKids drawn cs st0 = (obs, st1)"
      and ok: "createdOk st0 st1 (listIds cs)"
      and fr: "freshIn (rc_next st0) (rc_next st1) (concat (map objIds obs))"
      and mi: "mirrorsList (rc_nodeMap st1) cs obs"
      using "1.IH"[OF True refl st0_def rk dk] by blast
    have res: "createDisplayObject drawn (Node f cs) st = (Some (DObj (rc_next st) None obs), st1)"
      using True c by (simp add: st0_def Let_def)
    have ok1: "createdOk st st1 (listIds cs)" using ok by (simp add: createdOk_def st0_def)
    have fr1: "freshIn (rc_next st) (rc_next st1) (rc_next st # concat (map objIds obs))"
      using freshIn_Cons[of "rc_next st" "Suc (rc_next st)" "rc_next st1"
              "concat (map objIds obs)" "rc_next st"] fr ok
      by (simp add: st0_def createdOk_def)
    show ?thesis using res ok1 fr1 mi True by simp
  next
    case ng: False
    show ?thesis
    proof (cases "n_type f = ''tilemap'' \<or> n_type f = ''particles''")
      case True
      let ?n = "drawn (Node f cs)"
      let ?ks = "map (\<lambda>j. DObj (Suc (rc_next st) + j) None []) [0..<?n]"
      have fr: "freshIn (rc_next st) (Suc (rc_next st) + ?n) (rc_next st # concat (map objIds ?ks))"
        unfolding drawn_ids
        by (rule freshIn_Cons[OF _ _ freshIn_drawn]) simp_all
      have la: "list_all (\<lambda>k. meta k = None \<and> kids k = []) ?ks" by (simp add: list_all_iff)
      show ?thesis using ng True fr la by (simp add: Let_def createdOk_def)
    next
      case False
      then have "n_type f \<in> set leafTypes" using r ng by (simp add: renderable_def)
      then show ?thesis using ng False by (simp add: createdOk_def freshIn_def)
    qed
  qed
next
  case (2 drawn st)
  then show ?case by (simp add: createdOk_def freshIn_def)
next
  case (3 drawn c cs st)
  have rc: "\<forall>m \<in> set (walkNodes c). renderable m" and rcs: "\<forall>m \<in> set (walkList cs). renderable m"
    using "3.prems"(1) by simp_all
  have dc: "distinct (map nid (walkNodes c))" and dcs: "distinct (listIds cs)"
    and dj: "set (map nid (walkNodes c)) \<inter> set (listIds cs) = {}"
    using "3.prems"(2) by (auto simp: walkNodes_ids)
  let ?sub = "if isGroup c then descIds c else []"
  obtain ob st1 where c1: "createDisplayObject drawn c st = (Some ob, st1)"
    and ok1: "createdOk st st1 ?sub"
    and fr1: "freshIn (rc_next st) (rc_next st1) (objIds ob)"
    and mi1: "if isGroup c then mirrorsList (rc_nodeMap st1) (children c) (kids ob)
              else list_all (\<lambda>k. meta k = None \<and> kids k = []) (kids ob)"
    using "3.IH"(1)[OF rc dc] by blast
  define ob1 where "ob1 = DObj (oid ob) (Some (nodeMeta c)) (kids ob)"
  define st2 where "st2 = st1\<lparr>rc_nodeMap := (rc_nodeMap st1)(nid c \<mapsto> oid ob)\<rparr>"
  obtain rest st3 where c3: "createKids drawn cs st2 = (rest, st3)"
    and ok3: "createdOk st2 st3 (listIds cs)"
    and fr3: "freshIn (rc_next st2) (rc_next st3) (concat (map objIds rest))"
    and mi3: "mirrorsList (rc_nodeMap st3) cs rest"
    using "3.IH"(3)[OF c1[symmetric] refl ob1_def st2_def rcs dcs] by blast
  have res: "createKids drawn (c # cs) st = (ob1 # rest, st3)"
    using c1 c3 by (simp add: ob1_def st2_def Let_def)
  have ids1: "objIds ob1 = objIds ob" by (cases ob) (simp add: ob1_def)
  have n2: "rc_next st2 = rc_next st1" by (simp add: st2_def)
  have fr: "freshIn (rc_next st) (rc_next st3) (concat (map objIds (ob1 # rest)))"
    using freshIn_append[OF fr1 fr3[unfolded n2]] ok1 ok3 n2 ids1 by (simp add: createdOk_def)
  have ok: "createdOk st st3 (listIds (c # cs))"
    using ok1 ok3 by (auto simp: createdOk_def st2_def split: if_splits)
  have cid: "nid c \<notin> set (listIds cs)" and cself: "isGroup c \<Longrightarrow> nid c \<notin> set (descIds c)"
    using "3.prems"(2) by (auto split: if_splits)
  have nm3c: "rc_nodeMap st3 (nid c) = Some (oid ob)"
    using ok3 cid by (simp add: createdOk_def st2_def)
  have agree: "\<forall>j \<in> set (listIds (children c)). isGroup c \<longrightarrow> rc_nodeMap st3 j = rc_nodeMap st1 j"
  proof (intro ballI impI)
    fix j assume j: "j \<in> set (listIds (children c))" and g: "isGroup c"
    then have jd: "j \<in> set (descIds c)" by (simp add: descIds_def)
    then have "j \<noteq> nid c" using cself[OF g] by auto
    moreover have "j \<notin> set (listIds cs)" using jd dj g by (auto simp: walkNodes_ids)
    ultimately show "rc_nodeMap st3 j = rc_nodeMap st1 j"
      using ok3 by (simp add: createdOk_def st2_def)
  qed
  have m1: "mirrors (rc_nodeMap st3) c ob1"
  proof (cases c)
    case (Node f ccs)
    show ?thesis
    proof (cases "isGroup c")
      case True
      have "mirrorsList (rc_nodeMap st3) ccs (kids ob) = mirrorsList (rc_nodeMap st1) ccs (kids ob)"
        using mirrors_cong(2)[of ccs "rc_nodeMap st3" "rc_nodeMap st1" "kids ob"] agree True Node by simp
      then show ?thesis using mi1 True Node nm3c by (simp add: ob1_def)
    next
      case False
      then show ?thesis using mi1 Node nm3c by (simp add: ob1_def)
    qed
  qed
  show ?case using res ok fr m1 mi3 by simp
qed

lemma mirrorsList_append:
  "mirrorsList nm xs ks \<Longrightarrow> mirrorsList nm ys ls \<Longrightarrow> mirrorsList nm (xs @ ys) (ks @ ls)"
proof (induction xs arbitrary: ks)
  case Nil
  then show ?case by simp
next
  case (Cons x xs)
  then show ?case by (cases ks) auto
qed

lemma syncNode_unmapped:
  "rc_nodeMap st (nid c) = None \<Longrightarrow> syncNode drawn c parent st = createAndAttach drawn c parent st"
  by (cases c) (simp add: getObj_def)

lemma first_pass_loop:
  "rc_stage st = DObj r None ks0 \<Longrightarrow> length ks0 = i \<Longrightarrow> distinct (objIds (rc_stage st))
   \<Longrightarrow> \<forall>o1 \<in> set (objIds (rc_stage st)). o1 < rc_next st
   \<Longrightarrow> mirrorsList (rc_nodeMap st) done ks0
   \<Longrightarrow> \<forall>j \<in> set (listIds cs). rc_nodeMap st j = None
   \<Longrightarrow> distinct (listIds (done @ cs))
   \<Longrightarrow> \<forall>m \<in> set (walkList cs). renderable m
   \<Longrightarrow> \<exists>ks1. rc_stage (syncChildren drawn cs i r st) = DObj r None (ks0 @ ks1)
         \<and> distinct (objIds (rc_stage (syncChildren drawn cs i r st)))
         \<and> mirrorsList (rc_nodeMap (syncChildren drawn cs i r st)) (done @ cs) (ks0 @ ks1)
         \<and> rc_destroyed (syncChildren drawn cs i r st) = rc_destroyed st"
proof (induction cs arbitrary: st ks0 i "done")
  case Nil
  then show ?case by simp
next
  case (Cons c cs)
  note stage = Cons.prems(1) and len = Cons.prems(2) and d = Cons.prems(3) and bound = Cons.prems(4)
    and mdone = Cons.prems(5) and unm = Cons.prems(6) and dist = Cons.prems(7) and ren = Cons.prems(8)
  let ?sub = "if isGroup c then descIds c else []"
  have rc: "\<forall>m \<in> set (walkNodes c). renderable m" and rcs: "\<forall>m \<in> set (walkList cs). renderable m"
    using ren by simp_all
  have dall: "distinct (listIds done @ nid c # ?sub @ listIds cs)" using dist by simp
  have dc: "distinct (map nid (walkNodes c))" using dall by (simp add: walkNodes_ids)
  obtain ob st1 where c1: "createDisplayObject drawn c st = (Some ob, st1)"
    and ok1: "createdOk st st1 ?sub"
    and fr1: "freshIn (rc_next st) (rc_next st1) (objIds ob)"
    and mi1: "if isGroup c then mirrorsList (rc_nodeMap st1) (children c) (kids ob)
              else list_all (\<lambda>k. meta k = None \<and> kids k = []) (kids ob)"
    using create_props(1)[OF rc dc, of drawn st] by blast
  define ob1 where "ob1 = DObj (oid ob) (Some (nodeMeta c)) (kids ob)"
  define st2 where "st2 = st1\<lparr>rc_nodeMap := (rc_nodeMap st1)(nid c \<mapsto> oid ob),
                              rc_stage := DObj r None (ks0 @ [ob1])\<rparr>"
  have unc: "rc_nodeMap st (nid c) = None" using unm by simp
  have stg1: "rc_stage st1 = DObj r None ks0" using ok1 stage by (simp add: createdOk_def)
  have sn: "syncNode drawn c r st = st2"
    using c1 stg1 by (simp add: syncNode_unmapped[OF unc] createAndAttach_def addChild_def st2_def ob1_def)
  have ids1: "objIds ob1 = objIds ob" by (cases ob) (simp add: ob1_def)
  have o1: "oid ob1 = oid ob" by (simp add: ob1_def)
  have old: "\<forall>o1 \<in> set (r # concat (map objIds ks0)). o1 < rc_next st" using bound stage by simp
  have new: "\<forall>o1 \<in> set (objIds ob). rc_next st \<le> o1 \<and> o1 < rc_next st1" and dnew: "distinct (objIds ob)"
    using fr1 by (simp_all add: freshIn_def)
  have nx: "rc_next st \<le> rc_next st1" using ok1 by (simp add: createdOk_def)
  have d2: "distinct (objIds (rc_stage st2))"
  proof -
    have "distinct (r # concat (map objIds ks0))" using d stage by simp
    moreover have "set (r # concat (map objIds ks0)) \<inter> set (objIds ob) = {}"
      using old new by fastforce
    ultimately show ?thesis using dnew ids1 by (simp add: st2_def)
  qed
  have b2: "\<forall>o1 \<in> set (objIds (rc_stage st2)). o1 < rc_next st2"
    using old new nx ids1 by (fastforce simp: st2_def)
  have frame: "\<And>j. j \<notin> set ?sub \<Longrightarrow> j \<noteq> nid c \<Longrightarrow> rc_nodeMap st2 j = rc_nodeMap st j"
    using ok1 by (simp add: createdOk_def st2_def)
  have cself: "nid c \<notin> set ?sub" using dall by auto
  have mc: "mirrors (rc_nodeMap st2) c ob1"
  proof (cases c)
    case (Node f ccs)
    show ?thesis
    proof (cases "isGroup c")
      case True
      have "\<forall>j \<in> set (listIds ccs). rc_nodeMap st2 j = rc_nodeMap st1 j"
        using cself True Node by (auto simp: st2_def)
      then have "mirrorsList (rc_nodeMap st2) ccs (kids ob) = mirrorsList (rc_nodeMap st1) ccs (kids ob)"
        by (rule mirrors_cong(2))
      then show ?thesis using mi1 True Node by (simp add: ob1_def st2_def)
    next
      case False
      then show ?thesis using mi1 Node by (simp add: ob1_def st2_def)
    qed
  qed
  have md2: "mirrorsList (rc_nodeMap st2) done ks0"
  proof -
    have "\<forall>j \<in> set (listIds done). rc_nodeMap st2 j = rc_nodeMap st j"
    proof
      fix j assume "j \<in> set (listIds done)"
      then have "j \<notin> set ?sub" "j \<noteq> nid c" using dall by auto
      then show "rc_nodeMap st2 j = rc_nodeMap st j" using frame by blast
    qed
    then show ?thesis using mirrors_cong(2) mdone by blast
  qed
  have m2: "mirrorsList (rc_nodeMap st2) (done @ [c]) (ks0 @ [ob1])"
    using mirrorsList_append[OF md2, of "[c]" "[ob1]"] mc by simp
  have unm2: "\<forall>j \<in> set (listIds cs). rc_nodeMap st2 j = None"
  proof
    fix j assume j: "j \<in> set (listIds cs)"
    then have "j \<notin> set ?sub" "j \<noteq> nid c" using dall by auto
    then show "rc_nodeMap st2 j = None" using frame unm j by simp
  qed
  have fr: "findObj (rc_stage st2) r = Some (DObj r None (ks0 @ [ob1]))" by (simp add: st2_def)
  have nm2: "rc_nodeMap st2 (nid c) = Some (oid ob1)" by (simp add: st2_def o1)
  have eo: "ensureOrder (nid c) i r st2 = st2"
    using ensureOrder_aligned[OF d2 fr _ len nm2, of "[]"] by simp
  have stage2: "rc_stage st2 = DObj r None (ks0 @ [ob1])" by (simp add: st2_def)
  have len2: "length (ks0 @ [ob1]) = Suc i" using len by simp
  have dist2: "distinct (listIds ((done @ [c]) @ cs))" using dist by simp
  obtain ks1 where
    r1: "rc_stage (syncChildren drawn cs (Suc i) r st2) = DObj r None ((ks0 @ [ob1]) @ ks1)"
    and r2: "distinct (objIds (rc_stage (syncChildren drawn cs (Suc i) r st2)))"
    and r3: "mirrorsList (rc_nodeMap (syncChildren drawn cs (Suc i) r st2)) ((done @ [c]) @ cs)
               ((ks0 @ [ob1]) @ ks1)"
    and r4: "rc_destroyed (syncChildren drawn cs (Suc i) r st2) = rc_destroyed st2"
    using Cons.IH[OF stage2 len2 d2 b2 m2 unm2 dist2 rcs] by blast
  have ds: "rc_destroyed st2 = rc_destroyed st" using ok1 by (simp add: createdOk_def st2_def)
  have sc: "syncChildren drawn (c # cs) i r st = syncChildren drawn cs (Suc i) r st2"
    using sn eo by simp
  show ?case
    unfolding sc using r1 r2 r3 r4 ds by (intro exI[of _ "ob1 # ks1"]) simp
qed

text \<open>
  From a new root container and an empty map the reconciler is idempotent: for a document with
  pairwise distinct ids and known variant tags, the first pass builds a context that mirrors the
  document, and a second pass over the same document leaves that context as it is; it creates
  and destroys nothing.
\<close>

lemma reconcile_fresh_idempotent:
  assumes d: "distinct (descIds rt)" and r: "\<forall>m \<in> set (walkList (children rt)). renderable m"
  shows "syncScene drawn rt (syncScene drawn rt initialCtx) = syncScene drawn rt initialCtx"
proof -
  have s0: "syncScene drawn rt initialCtx = syncChildren drawn (children rt) 0 0 initialCtx"
    by (simp add: syncScene_def syncGroupChildren_def initialCtx_def staleIds_def)
  have dd: "distinct (listIds ([] @ children rt))" using d by (simp add: descIds_def)
  obtain ks1 where
    r1: "rc_stage (syncChildren drawn (children rt) 0 0 initialCtx) = DObj 0 None ([] @ ks1)"
    and r2: "distinct (objIds (rc_stage (syncChildren drawn (children rt) 0 0 initialCtx)))"
    and r3: "mirrorsList (rc_nodeMap (syncChildren drawn (children rt) 0 0 initialCtx))
               ([] @ children rt) ([] @ ks1)"
    using first_pass_loop[of initialCtx 0 "[]" 0 "[]" "children rt" drawn, OF _ _ _ _ _ _ dd r]
    by (auto simp: initialCtx_def)
  have "mirrorsList (rc_nodeMap (syncScene drawn rt initialCtx)) (children rt)
          (kids (rc_stage (syncScene drawn rt initialCtx)))"
    using r1 r3 by (simp add: s0)
  then show ?thesis using syncScene_mirrored r2 s0 by simp
qed

text \<open>
  Claim C3 at a node that changed its parent. Both documents have pairwise distinct ids, and
  the previous object map is the one the reconciler built for \<open>docBefore\<close> (three objects).
  The first pass over \<open>docMoved\<close> visits \<open>g2\<close> first, finds the object of \<open>x\<close> unchanged and
  skips it, then syncs \<open>g1\<close>, which no longer lists \<open>x\<close>, and destroys that object: \<open>x\<close> is in
  the document and has no object. The second pass over the same document creates it: one object
  is created on the second pass.
\<close>

theorem reconcile_moved_node_second_pass_creates:
  "distinct (allNodeIds docBefore) \<and> distinct (allNodeIds docMoved)
   \<and> rc_created renderedBefore = 3 \<and> rc_destroyed renderedBefore = 0
   \<and> rc_created firstPass = 3 \<and> rc_destroyed firstPass = 1 \<and> rc_nodeMap firstPass ''x'' = None
   \<and> rc_created secondPass = 4 \<and> rc_destroyed secondPass = 1"
  unfolding secondPass_def firstPass_def renderedBefore_def docBefore_def docMoved_def
  by code_simp


end
